theory Spec2Isabelle
  imports Complex_Main "HOL-Library.Word"
begin

section \<open>Data model\<close>

text \<open>
  A pixel of an RGBA image is four bytes. A pixel grid is the \<open>numpy\<close> array of shape
  \<open>(h, w, 4)\<close> that the program obtains from a PIL image: a list of \<open>h\<close> rows, each a
  list of \<open>w\<close> pixels. The array is rectangular by construction; a list of lists need not
  be, so the theorems about grids assume \<open>rectangular\<close>. An array without rows is the empty
  list, whose width is 0 here; the theorems are about images of at least one row and one
  column.
\<close>

record pixel =
  red :: "8 word"
  green :: "8 word"
  blue :: "8 word"
  alpha :: "8 word"

type_synonym grid = "pixel list list"

definition height :: "'a list list \<Rightarrow> nat" where
  "height arr = length arr"

definition width :: "'a list list \<Rightarrow> nat" where
  "width arr = (case arr of [] \<Rightarrow> 0 | row # _ \<Rightarrow> length row)"

definition rectangular :: "'a list list \<Rightarrow> bool" where
  "rectangular arr = list_all (\<lambda>row. length row = width arr) arr"

text \<open>\<open>config.py\<close>: the dataclass \<open>Config\<close> and its defaults.\<close>

record config =
  white_threshold :: int
  grid_line_threshold :: int
  grid_line_min_coverage :: rat
  padding :: int
  output_size :: int
  flood_fill_tolerance :: int
  min_sprite_pixels :: int
  gap_min_width :: int

definition default_config :: config where
  "default_config = \<lparr> white_threshold = 230, grid_line_threshold = 80,
     grid_line_min_coverage = 4 / 5, padding = 10, output_size = 512,
     flood_fill_tolerance = 25, min_sprite_pixels = 200, gap_min_width = 8 \<rparr>"

text \<open>The exceptions the modelled functions can raise.\<close>

datatype error = IndexError | ValueError | ZeroDivisionError

text \<open>Two pixels used in examples: opaque white and opaque black.\<close>

definition white_px :: pixel where
  "white_px = \<lparr>red = 255, green = 255, blue = 255, alpha = 255\<rparr>"

definition dark_px :: pixel where
  "dark_px = \<lparr>red = 0, green = 0, blue = 0, alpha = 255\<rparr>"

section \<open>\<open>background_remover.py\<close>\<close>

text \<open>
  \<open>channels arr\<close> is the view \<open>int(arr[y, x, 0]), int(arr[y, x, 1]), int(arr[y, x, 2])\<close>
  of the array: the three colour bytes of every pixel as Python integers. The flood fill
  reads the array only through this view.
\<close>

definition rgb :: "pixel \<Rightarrow> int \<times> int \<times> int" where
  "rgb p = (uint (red p), uint (green p), uint (blue p))"

definition channels :: "grid \<Rightarrow> (int \<times> int \<times> int) list list" where
  "channels arr = map (map rgb) arr"

definition is_near_white :: "config \<Rightarrow> int \<times> int \<times> int \<Rightarrow> bool" where
  "is_near_white cfg c = (case c of (r, g, b) \<Rightarrow>
     r \<ge> white_threshold cfg \<and> g \<ge> white_threshold cfg \<and> b \<ge> white_threshold cfg)"

definition within_tolerance :: "config \<Rightarrow> int \<times> int \<times> int \<Rightarrow> bool" where
  "within_tolerance cfg c = (case c of (r, g, b) \<Rightarrow>
     r \<ge> white_threshold cfg - flood_fill_tolerance cfg \<and>
     g \<ge> white_threshold cfg - flood_fill_tolerance cfg \<and>
     b \<ge> white_threshold cfg - flood_fill_tolerance cfg)"

text \<open>Coordinates are pairs \<open>(x, y)\<close> of Python integers; the array is indexed \<open>[y, x]\<close>.\<close>

definition px_at :: "'a list list \<Rightarrow> int \<times> int \<Rightarrow> 'a" where
  "px_at arr p = arr ! nat (snd p) ! nat (fst p)"

text \<open>
  The seed pixels: the near-white pixels of the top and bottom rows, column by column
  (\<open>for x in range(w): for y in (0, h - 1)\<close>), then those of the left and right columns,
  row by row (\<open>for y in range(1, h - 1): for x in (0, w - 1)\<close>). On a one-row or
  one-column image the two border positions coincide and the pixel is listed twice, as
  in the source.
\<close>

definition collect_seeds :: "(int \<times> int \<times> int) list list \<Rightarrow> config \<Rightarrow> int \<Rightarrow> int \<Rightarrow> (int \<times> int) list" where
  "collect_seeds ch cfg w h =
     concat (map (\<lambda>x. filter (\<lambda>p. is_near_white cfg (px_at ch p)) [(x, 0), (x, h - 1)]) [0..w - 1]) @
     concat (map (\<lambda>y. filter (\<lambda>p. is_near_white cfg (px_at ch p)) [(0, y), (w - 1, y)]) [1..h - 2])"

text \<open>
  The boolean arrays \<open>visited\<close> and \<open>bg_mask\<close> are modelled as the sets of coordinates at
  which they hold \<open>True\<close>; the deque is a list, \<open>popleft\<close> takes its head and \<open>append\<close>
  adds at its end.
\<close>

record fill =
  queue :: "(int \<times> int) list"
  visited :: "(int \<times> int) set"
  bg_mask :: "(int \<times> int) set"

text \<open>The first loop over the seeds: mark each seed visited and, if near-white, masked.\<close>

fun mark_seeds :: "(int \<times> int \<times> int) list list \<Rightarrow> config \<Rightarrow> (int \<times> int) list \<Rightarrow> fill \<Rightarrow> fill" where
  "mark_seeds ch cfg [] st = st"
| "mark_seeds ch cfg (s # seeds) st =
     (if s \<in> visited st then mark_seeds ch cfg seeds st
      else let st' = st\<lparr>visited := insert s (visited st)\<rparr> in
        if \<not> is_near_white cfg (px_at ch s) then mark_seeds ch cfg seeds st'
        else mark_seeds ch cfg seeds (st'\<lparr>bg_mask := insert s (bg_mask st')\<rparr>))"

text \<open>One iteration of the inner loop \<open>for dx, dy in ...\<close> of the breadth-first search.\<close>

definition visit :: "(int \<times> int \<times> int) list list \<Rightarrow> config \<Rightarrow> int \<Rightarrow> int \<Rightarrow> int \<times> int \<Rightarrow> int \<times> int \<Rightarrow> fill \<Rightarrow> fill" where
  "visit ch cfg w h c d st =
     (let nx = fst c + fst d; ny = snd c + snd d in
      if 0 \<le> nx \<and> nx < w \<and> 0 \<le> ny \<and> ny < h \<and> (nx, ny) \<notin> visited st then
        (let st' = st\<lparr>visited := insert (nx, ny) (visited st)\<rparr> in
         if within_tolerance cfg (px_at ch (nx, ny))
         then st'\<lparr>bg_mask := insert (nx, ny) (bg_mask st'), queue := queue st' @ [(nx, ny)]\<rparr>
         else st')
      else st)"

definition directions :: "(int \<times> int) list" where
  "directions = [(-1, 0), (1, 0), (0, -1), (0, 1)]"

text \<open>
  The loop \<open>while queue\<close>. Every iteration removes one coordinate from the queue and
  appends only coordinates that it marks visited for the first time, so twice the number
  of unvisited coordinates plus the length of the queue decreases.
\<close>

function flood :: "(int \<times> int \<times> int) list list \<Rightarrow> config \<Rightarrow> int \<Rightarrow> int \<Rightarrow> fill \<Rightarrow> fill" where
  "flood ch cfg w h st =
     (case queue st of
        [] \<Rightarrow> st
      | c # rest \<Rightarrow> flood ch cfg w h (fold (visit ch cfg w h c) directions (st\<lparr>queue := rest\<rparr>)))"
  by pat_completeness auto
termination
proof (relation "measure (\<lambda>(ch, cfg, w, h, st).
         2 * card (({0..<w} \<times> {0..<h}) - visited st) + length (queue st))")
  show "wf (measure (\<lambda>(ch, cfg, w, h, st).
         2 * card (({0..<w} \<times> {0..<h}) - visited st) + length (queue st)))"
    by simp
next
  fix ch :: "(int \<times> int \<times> int) list list" and cfg :: config and w h :: int
    and st :: fill and c rest
  assume q: "queue st = c # rest"
  define m where "m = (\<lambda>s :: fill. 2 * card (({0..<w} \<times> {0..<h}) - visited s) + length (queue s))"
  have step: "m (visit ch cfg w h c d s) \<le> m s" for d s
  proof (cases "0 \<le> fst c + fst d \<and> fst c + fst d < w \<and> 0 \<le> snd c + snd d \<and> snd c + snd d < h
                \<and> (fst c + fst d, snd c + snd d) \<notin> visited s")
    case True
    let ?p = "(fst c + fst d, snd c + snd d)"
    have fin: "finite (({0..<w} \<times> {0..<h}) - visited s)" by simp
    have mem: "?p \<in> ({0..<w} \<times> {0..<h}) - visited s" using True by simp
    have eq: "({0..<w} \<times> {0..<h}) - insert ?p (visited s) = (({0..<w} \<times> {0..<h}) - visited s) - {?p}"
      by blast
    have "card (({0..<w} \<times> {0..<h}) - insert ?p (visited s)) < card (({0..<w} \<times> {0..<h}) - visited s)"
      unfolding eq by (rule card_Diff1_less [OF fin mem])
    then show ?thesis using True by (simp add: visit_def m_def Let_def)
  next
    case False
    then show ?thesis by (auto simp: visit_def Let_def)
  qed
  have "m (fold (visit ch cfg w h c) directions s) \<le> m s" for s
    unfolding directions_def
    by (simp, rule order_trans [OF step], rule order_trans [OF step],
        rule order_trans [OF step], rule step)
  from this [of "st\<lparr>queue := rest\<rparr>"] q
  show "((ch, cfg, w, h, fold (visit ch cfg w h c) directions (st\<lparr>queue := rest\<rparr>)), ch, cfg, w, h, st)
        \<in> measure (\<lambda>(ch, cfg, w, h, st).
            2 * card (({0..<w} \<times> {0..<h}) - visited st) + length (queue st))"
    by (simp add: m_def)
qed

text \<open>
  The mask computed by \<open>remove_background\<close>: seeds, the marking loop, the queue of masked
  seeds, the breadth-first search.
\<close>

definition background_mask :: "grid \<Rightarrow> config \<Rightarrow> (int \<times> int) set" where
  "background_mask arr cfg =
     (let ch = channels arr; h = int (height arr); w = int (width arr);
          seeds = collect_seeds ch cfg w h;
          st = mark_seeds ch cfg seeds \<lparr>queue = [], visited = {}, bg_mask = {}\<rparr>;
          st' = st\<lparr>queue := filter (\<lambda>p. p \<in> bg_mask st) seeds\<rparr>
      in bg_mask (flood ch cfg w h st'))"

text \<open>\<open>arr[bg_mask, 3] = 0\<close>: the alpha byte of every masked pixel becomes 0.\<close>

definition apply_mask :: "grid \<Rightarrow> (int \<times> int) set \<Rightarrow> grid" where
  "apply_mask arr m =
     map (\<lambda>(y, row). map (\<lambda>(x, p). if (int x, int y) \<in> m then p\<lparr>alpha := 0\<rparr> else p)
                         (zip [0..<length row] row))
         (zip [0..<length arr] arr)"

text \<open>
  \<open>remove_background\<close>. The only access that can fail is \<open>arr[y, 0, 0]\<close> in the second
  seed loop, on an array of width 0 and height at least 3 (the first loop does not run
  when \<open>w = 0\<close>, the second does not run when \<open>h < 3\<close>); with \<open>w \<ge> 1\<close> and \<open>h \<ge> 1\<close> every
  index is in range.
\<close>

definition remove_background :: "grid \<Rightarrow> config \<Rightarrow> error + grid" where
  "remove_background arr cfg =
     (if width arr = 0 \<and> 3 \<le> height arr then Inl IndexError
      else Inr (apply_mask arr (background_mask arr cfg)))"

section \<open>\<open>grid_detector.py\<close>\<close>

text \<open>
  Rectangles are tuples \<open>(x, y, w, h)\<close> of Python integers; bands, gaps and intervals are
  pairs \<open>(start, end)\<close>.

  The detector computes with \<open>numpy\<close> doubles in four places, each followed at once by a
  comparison or a truncation whose outcome is that of the exact rational value; the model
  computes with integers:
  \<^item> \<open>brightness < white_threshold\<close>, with \<open>brightness\<close> the mean of the three colour bytes
    and an integer threshold, holds exactly when the sum of the bytes is below three
    times the threshold (division by 3 is correctly rounded and monotone, and the
    threshold is a representable integer);
  \<^item> \<open>mean > 0.95\<close> and \<open>mean < 0.02\<close>, with \<open>mean\<close> the quotient \<open>k / n\<close> of two integers:
    the double nearest to \<open>k / n\<close> exceeds the double nearest to \<open>19 / 20\<close> exactly when
    \<open>20 k > 19 n\<close>, and is below the double nearest to \<open>1 / 50\<close> exactly when \<open>50 k < n\<close>
    (for \<open>n = 0\<close> the mean is \<open>nan\<close> and both comparisons are false, as are
    \<open>0 > 0\<close> and \<open>0 < 0\<close>);
  \<^item> \<open>span < total * 0.25\<close>: the product is exact, so this is \<open>4 * span < total\<close>;
  \<^item> \<open>int(total * 0.05)\<close> is \<open>total div 20\<close>.
  These equivalences hold for every image whose sides are below \<open>2 ^ 50\<close> pixels.
\<close>

type_synonym rect = "int \<times> int \<times> int \<times> int"

definition MAX_SEPARATOR_THICKNESS :: int where
  "MAX_SEPARATOR_THICKNESS = 20"

text \<open>
  \<open>_find_bands\<close>: the loop over \<open>enumerate(mask)\<close> with its three variables, then the band
  still open when the mask ends (the mask is called \<open>flags\<close> here).
\<close>

fun find_bands_loop :: "bool list \<Rightarrow> int \<Rightarrow> bool \<Rightarrow> int \<Rightarrow> (int \<times> int) list \<Rightarrow> (int \<times> int) list" where
  "find_bands_loop [] i in_band start bands =
     (if in_band then bands @ [(start, i)] else bands)"
| "find_bands_loop (v # flags) i in_band start bands =
     (if v \<and> \<not> in_band then find_bands_loop flags (i + 1) True i bands
      else if \<not> v \<and> in_band then find_bands_loop flags (i + 1) False start (bands @ [(start, i)])
      else find_bands_loop flags (i + 1) in_band start bands)"

definition find_bands :: "bool list \<Rightarrow> (int \<times> int) list" where
  "find_bands flags = find_bands_loop flags 0 False 0 []"

text \<open>
  The nested loops that build the cells from row intervals and column intervals, as
  they stand in \<open>_detect_separator_lines\<close> and, over the consecutive pairs of split
  positions, in \<open>_build_cells\<close>.
\<close>

definition interval_cells :: "(int \<times> int) list \<Rightarrow> (int \<times> int) list \<Rightarrow> rect list" where
  "interval_cells h_intervals v_intervals =
     concat (map (\<lambda>(y0, y1).
       map (\<lambda>(x0, x1). (x0, y0, x1 - x0, y1 - y0))
           (filter (\<lambda>(x0, x1). x1 - x0 > 10 \<and> y1 - y0 > 10) v_intervals)) h_intervals)"

definition consecutive :: "int list \<Rightarrow> (int \<times> int) list" where
  "consecutive splits = zip splits (tl splits)"

definition build_cells :: "int list \<Rightarrow> int list \<Rightarrow> rect list" where
  "build_cells h_splits v_splits = interval_cells (consecutive h_splits) (consecutive v_splits)"

text \<open>
  Strategy 1: separator lines. (\<open>_bands_to_splits\<close> is called nowhere in the repository and
  is not modelled.)
\<close>

definition is_dark :: "config \<Rightarrow> pixel \<Rightarrow> bool" where
  "is_dark cfg p = (uint (red p) + uint (green p) + uint (blue p) < 3 * white_threshold cfg)"

definition dark_count :: "config \<Rightarrow> pixel list \<Rightarrow> int" where
  "dark_count cfg line = int (length (filter (is_dark cfg) line))"

definition columns :: "'a list list \<Rightarrow> 'a list list" where
  "columns arr = map (\<lambda>x. map (\<lambda>row. row ! x) arr) [0..<width arr]"

definition filled_row_mask :: "grid \<Rightarrow> config \<Rightarrow> bool list" where
  "filled_row_mask arr cfg = map (\<lambda>row. 20 * dark_count cfg row > 19 * int (length row)) arr"

definition filled_col_mask :: "grid \<Rightarrow> config \<Rightarrow> bool list" where
  "filled_col_mask arr cfg =
     map (\<lambda>col. 20 * dark_count cfg col > 19 * int (length col)) (columns arr)"

fun between_bands :: "(int \<times> int) list \<Rightarrow> (int \<times> int) list" where
  "between_bands (b1 # b2 # bands) =
     (if fst b2 - snd b1 > 10 then [(snd b1, fst b2)] else []) @ between_bands (b2 # bands)"
| "between_bands _ = []"

definition bands_to_gap_intervals :: "(int \<times> int) list \<Rightarrow> int \<Rightarrow> (int \<times> int) list option" where
  "bands_to_gap_intervals bands tot =
     (if bands = [] then None
      else let intervals =
             (if fst (hd bands) > 10 then [(0, fst (hd bands))] else []) @
             between_bands bands @
             (if snd (last bands) < tot - 10 then [(snd (last bands), tot)] else [])
           in if intervals = [] then None else Some intervals)"

definition separator_bands :: "bool list \<Rightarrow> (int \<times> int) list" where
  "separator_bands flags =
     filter (\<lambda>(s, e). e - s \<le> MAX_SEPARATOR_THICKNESS) (find_bands flags)"

definition detect_separator_lines :: "grid \<Rightarrow> config \<Rightarrow> rect list option" where
  "detect_separator_lines arr cfg =
     (let h = int (height arr); w = int (width arr);
          h_bands = separator_bands (filled_row_mask arr cfg);
          v_bands = separator_bands (filled_col_mask arr cfg)
      in if h_bands = [] \<and> v_bands = [] then None
         else let h_intervals = (case bands_to_gap_intervals h_bands h of
                                   None \<Rightarrow> [(0, h)] | Some iv \<Rightarrow> iv);
                  v_intervals = (case bands_to_gap_intervals v_bands w of
                                   None \<Rightarrow> [(0, w)] | Some iv \<Rightarrow> iv);
                  cells = interval_cells h_intervals v_intervals
              in if length cells > 1 then Some cells else None)"

text \<open>Strategy 2: white-gap projection profiles.\<close>

definition gap_row_mask :: "grid \<Rightarrow> config \<Rightarrow> bool list" where
  "gap_row_mask arr cfg = map (\<lambda>row. 50 * dark_count cfg row < int (length row)) arr"

definition gap_col_mask :: "grid \<Rightarrow> config \<Rightarrow> bool list" where
  "gap_col_mask arr cfg = map (\<lambda>col. 50 * dark_count cfg col < int (length col)) (columns arr)"

definition find_gap_bands :: "bool list \<Rightarrow> int \<Rightarrow> int \<Rightarrow> (int \<times> int) list" where
  "find_gap_bands is_gap min_width tot =
     (let bands = find_bands is_gap; margin = tot div 20
      in filter (\<lambda>(s, e). e - s \<ge> min_width \<and> s > margin \<and> e < tot - margin) bands)"

definition gaps_to_splits :: "(int \<times> int) list option \<Rightarrow> int \<Rightarrow> int list" where
  "gaps_to_splits gaps tot =
     (case gaps of
        None \<Rightarrow> [0, tot]
      | Some gs \<Rightarrow> if gs = [] then [0, tot]
                  else [0] @ map (\<lambda>(s, e). (s + e) div 2) gs @ [tot])"

fun splits_are_balanced :: "int list \<Rightarrow> int \<Rightarrow> bool" where
  "splits_are_balanced (a # b # splits) tot =
     (if 4 * (b - a) < tot then False else splits_are_balanced (b # splits) tot)"
| "splits_are_balanced _ tot = True"

text \<open>
  \<open>_select_best_gaps\<close>. Python's \<open>sorted\<close> is stable, also with \<open>reverse=True\<close>, and so is
  \<open>sort_key\<close>; sorting by descending width is sorting by the negated width.
\<close>

fun select_loop :: "nat list \<Rightarrow> (int \<times> int) list \<Rightarrow> int \<Rightarrow> (int \<times> int) list option" where
  "select_loop [] sorted_gaps tot = None"
| "select_loop (n # ns) sorted_gaps tot =
     (if length sorted_gaps < n then select_loop ns sorted_gaps tot
      else let candidate = sort_key fst (take n sorted_gaps);
               splits = gaps_to_splits (Some candidate) tot
           in if splits_are_balanced splits tot then Some candidate
              else select_loop ns sorted_gaps tot)"

definition select_best_gaps :: "(int \<times> int) list \<Rightarrow> int \<Rightarrow> (int \<times> int) list option" where
  "select_best_gaps gaps tot =
     (if gaps = [] then None
      else let sorted_gaps = sort_key (\<lambda>g. - (snd g - fst g)) gaps
           in select_loop [2, 1] sorted_gaps tot)"

definition detect_white_gaps :: "grid \<Rightarrow> config \<Rightarrow> rect list option" where
  "detect_white_gaps arr cfg =
     (let h = int (height arr); w = int (width arr);
          h_gaps = find_gap_bands (gap_row_mask arr cfg) (gap_min_width cfg) h;
          v_gaps = find_gap_bands (gap_col_mask arr cfg) (gap_min_width cfg) w
      in if h_gaps = [] \<and> v_gaps = [] then None
         else let h_selected = select_best_gaps h_gaps h;
                  v_selected = select_best_gaps v_gaps w
              in if h_selected = None \<and> v_selected = None then None
                 else let h_splits = gaps_to_splits h_selected h;
                          v_splits = gaps_to_splits v_selected w;
                          cells = build_cells h_splits v_splits
                      in if length cells > 1 then Some cells else None)"

text \<open>
  \<open>detect_cells\<close>. No statement of the detector can raise on an array of at least one
  row and one column: every subscript (\<open>bands[0]\<close>, \<open>bands[-1]\<close>, \<open>splits[i + 1]\<close>) is
  guarded by the emptiness test or the loop bound before it, so the model has no error
  result.
\<close>

definition detect_cells :: "grid \<Rightarrow> config \<Rightarrow> rect list" where
  "detect_cells arr cfg =
     (case detect_separator_lines arr cfg of
        Some cells \<Rightarrow> cells
      | None \<Rightarrow>
         (case detect_white_gaps arr cfg of
            Some cells \<Rightarrow> cells
          | None \<Rightarrow> [(0, 0, int (width arr), int (height arr))]))"

text \<open>A point lies inside a rectangle.\<close>

definition inside :: "rect \<Rightarrow> int \<times> int \<Rightarrow> bool" where
  "inside r p = (case r of (x, y, w, h) \<Rightarrow>
     x \<le> fst p \<and> fst p < x + w \<and> y \<le> snd p \<and> snd p < y + h)"

text \<open>Example sheets: \<open>sheet h w dark\<close> is black where \<open>dark x y\<close> holds and white elsewhere.\<close>

definition sheet :: "nat \<Rightarrow> nat \<Rightarrow> (nat \<Rightarrow> nat \<Rightarrow> bool) \<Rightarrow> grid" where
  "sheet h w dark =
     map (\<lambda>y. map (\<lambda>x. if dark x y then dark_px else white_px) [0..<w]) [0..<h]"

section \<open>\<open>sprite_cropper.py\<close>\<close>

text \<open>\<open>np.count_nonzero(alpha)\<close>: the number of pixels whose alpha byte is not 0.\<close>

definition count_nonzero_alpha :: "grid \<Rightarrow> int" where
  "count_nonzero_alpha arr = int (length (filter (\<lambda>p. alpha p \<noteq> 0) (concat arr)))"

text \<open>
  \<open>np.argmax\<close> of a non-empty boolean array: the index of the first \<open>True\<close>, and 0 when
  there is none (then every entry is the maximum).
\<close>

definition argmax_bool :: "bool list \<Rightarrow> nat" where
  "argmax_bool bs = (if list_ex (\<lambda>b. b) bs then length (takeWhile (\<lambda>b. \<not> b) bs) else 0)"

text \<open>
  PIL's \<open>Image.crop((left, upper, right, lower))\<close> for a box inside the image, which is
  where \<open>crop_sprite\<close> calls it: the rows \<open>upper\<close> to \<open>lower - 1\<close> of the columns \<open>left\<close> to
  \<open>right - 1\<close>. Pillow raises \<open>ValueError\<close> when \<open>right < left\<close> or \<open>lower < upper\<close>.
\<close>

definition pil_crop :: "grid \<Rightarrow> int \<Rightarrow> int \<Rightarrow> int \<Rightarrow> int \<Rightarrow> error + grid" where
  "pil_crop arr left upper right lower =
     (if right < left \<or> lower < upper then Inl ValueError
      else Inr (map (\<lambda>row. take (nat (right - left)) (drop (nat left) row))
                    (take (nat (lower - upper)) (drop (nat upper) arr))))"

text \<open>
  \<open>crop_sprite\<close>: \<open>None\<close> is the skip result. \<open>np.argmax\<close> raises \<open>ValueError\<close> on an empty
  array, that is when the image has no row or no column.
\<close>

definition crop_sprite :: "grid \<Rightarrow> config \<Rightarrow> error + grid option" where
  "crop_sprite arr cfg =
     (if count_nonzero_alpha arr < min_sprite_pixels cfg then Inr None
      else if height arr = 0 \<or> width arr = 0 then Inl ValueError
      else
        let rows = map (list_ex (\<lambda>p. alpha p > 0)) arr;
            cols = map (list_ex (\<lambda>p. alpha p > 0)) (columns arr);
            y_min = int (argmax_bool rows);
            y_max = int (length rows) - 1 - int (argmax_bool (rev rows));
            x_min = int (argmax_bool cols);
            x_max = int (length cols) - 1 - int (argmax_bool (rev cols));
            h = int (height arr); w = int (width arr);
            pad = padding cfg;
            y_min = max 0 (y_min - pad);
            y_max = min (h - 1) (y_max + pad);
            x_min = max 0 (x_min - pad);
            x_max = min (w - 1) (x_max + pad)
        in case pil_crop arr x_min y_min (x_max + 1) (y_max + 1) of
             Inl e \<Rightarrow> Inl e
           | Inr cropped \<Rightarrow> Inr (Some cropped))"

text \<open>
  \<open>resize_sprite\<close> computes the scale in doubles. Unlike the comparisons of the detector,
  its result is not that of exact arithmetic: for \<open>cw = 49\<close> and \<open>size = 512\<close> the double
  \<open>49 * (512 / 49)\<close> is below 512 and truncates to 511. The rounding of a real result to a
  double is therefore a parameter \<open>fl\<close> of the model; \<open>size / cw\<close> is \<open>fl\<close> of the exact
  quotient and \<open>cw * scale\<close> is \<open>fl\<close> of the exact product. \<open>int\<close> truncates towards zero.
\<close>

definition py_int :: "rat \<Rightarrow> int" where
  "py_int q = (if 0 \<le> q then \<lfloor>q\<rfloor> else \<lceil>q\<rceil>)"

definition scaled_size :: "(rat \<Rightarrow> rat) \<Rightarrow> nat \<Rightarrow> nat \<Rightarrow> nat \<Rightarrow> int \<times> int" where
  "scaled_size fl cw ch sz =
     (let scale = min (fl (of_nat sz / of_nat cw)) (fl (of_nat sz / of_nat ch));
          new_w = max 1 (py_int (fl (of_nat cw * scale)));
          new_h = max 1 (py_int (fl (of_nat ch * scale)))
      in (new_w, new_h))"

text \<open>\<open>Image.new("RGBA", (size, size), (0, 0, 0, 0))\<close>.\<close>

definition transparent_px :: pixel where
  "transparent_px = \<lparr>red = 0, green = 0, blue = 0, alpha = 0\<rparr>"

definition new_canvas :: "nat \<Rightarrow> grid" where
  "new_canvas sz = replicate sz (replicate sz transparent_px)"

text \<open>
  \<open>canvas.paste(im, (ox, oy))\<close> without a mask: the pixels of the canvas under the image
  become those of the image, the part of the image outside the canvas is dropped.
\<close>

definition paste :: "grid \<Rightarrow> grid \<Rightarrow> int \<Rightarrow> int \<Rightarrow> grid" where
  "paste canvas im ox oy =
     map (\<lambda>(y, row).
            map (\<lambda>(x, p). if ox \<le> int x \<and> int x < ox + int (width im) \<and>
                              oy \<le> int y \<and> int y < oy + int (height im)
                           then px_at im (int x - ox, int y - oy) else p)
                (zip [0..<length row] row))
         (zip [0..<length canvas] canvas)"

text \<open>
  \<open>resize_sprite\<close>. \<open>img.size\<close> is \<open>(width, height)\<close>; a division by a zero side raises
  \<open>ZeroDivisionError\<close>. PIL's \<open>Image.resize\<close> with the Lanczos filter is the parameter
  \<open>resample\<close>: all that is used of it is that it returns an image of the size it is asked
  for.
\<close>

definition resize_sprite :: "(rat \<Rightarrow> rat) \<Rightarrow> (grid \<Rightarrow> nat \<Rightarrow> nat \<Rightarrow> grid) \<Rightarrow> grid \<Rightarrow> nat \<Rightarrow> error + grid" where
  "resize_sprite fl resample img sz =
     (let cw = width img; ch = height img in
      if cw = 0 \<or> ch = 0 then Inl ZeroDivisionError
      else
        let (new_w, new_h) = scaled_size fl cw ch sz;
            resized = resample img (nat new_w) (nat new_h);
            offset_x = (int sz - new_w) div 2;
            offset_y = (int sz - new_h) div 2
        in Inr (paste (new_canvas sz) resized offset_x offset_y))"

section \<open>Vocabulary of the properties and example inputs\<close>

text \<open>
  Connection to the border, for the flood fill. A coordinate is connected to the
  border when a path of grid coordinates ends in it that starts on one of the four border
  lines, moves by one step left, right, up or down at a time, and passes only through
  pixels that are within tolerance.
\<close>

definition in_bounds :: "grid \<Rightarrow> int \<times> int \<Rightarrow> bool" where
  "in_bounds arr p = (0 \<le> fst p \<and> fst p < int (width arr) \<and> 0 \<le> snd p \<and> snd p < int (height arr))"

definition on_border :: "grid \<Rightarrow> int \<times> int \<Rightarrow> bool" where
  "on_border arr p = (fst p = 0 \<or> fst p = int (width arr) - 1 \<or> snd p = 0 \<or> snd p = int (height arr) - 1)"

definition adjacent :: "int \<times> int \<Rightarrow> int \<times> int \<Rightarrow> bool" where
  "adjacent p q = (\<bar>fst p - fst q\<bar> + \<bar>snd p - snd q\<bar> = 1)"

definition tolerance_path :: "grid \<Rightarrow> config \<Rightarrow> (int \<times> int) list \<Rightarrow> bool" where
  "tolerance_path arr cfg path =
     (path \<noteq> [] \<and> on_border arr (hd path) \<and> successively adjacent path \<and>
      list_all (\<lambda>p. in_bounds arr p \<and> within_tolerance cfg (rgb (px_at arr p))) path)"

definition border_connected :: "grid \<Rightarrow> config \<Rightarrow> int \<times> int \<Rightarrow> bool" where
  "border_connected arr cfg p = (\<exists>path. tolerance_path arr cfg path \<and> last path = p)"

text \<open>A white pixel enclosed by a ring of black pixels.\<close>

definition enclosed_white :: grid where
  "enclosed_white = [[dark_px, dark_px, dark_px], [dark_px, white_px, dark_px], [dark_px, dark_px, dark_px]]"

text \<open>A sheet of 15 rows and 25 columns, white but for one black row and one black column.\<close>

definition crossed_sheet :: grid where
  "crossed_sheet = sheet 15 25 (\<lambda>x y. y = 5 \<or> x = 12)"

text \<open>A resampler for the examples: it returns a white image of the size asked for.\<close>

definition flat_resample :: "grid \<Rightarrow> nat \<Rightarrow> nat \<Rightarrow> grid" where
  "flat_resample img w h = replicate h (replicate w white_px)"

text \<open>A sprite of 4 by 3 pixels.\<close>

definition wide_sprite :: grid where
  "wide_sprite = replicate 3 (replicate 4 white_px)"

text \<open>Bands of a mask of length \<open>n\<close>: non-empty, inside \<open>[0, n]\<close>, in increasing order and separated by at least one index.\<close>

definition bands_ok :: "int \<Rightarrow> (int \<times> int) list \<Rightarrow> bool" where
  "bands_ok n bands =
     (sorted_wrt (\<lambda>a b. snd a < fst b) bands \<and>
      (\<forall>b \<in> set bands. 0 \<le> fst b \<and> fst b < snd b \<and> snd b \<le> n))"

text \<open>Intervals inside \<open>[0, n]\<close> in increasing order, each ending before the next begins.\<close>

definition chain :: "int \<Rightarrow> (int \<times> int) list \<Rightarrow> bool" where
  "chain n ivs =
     (sorted_wrt (\<lambda>a b. snd a \<le> fst b) ivs \<and> (\<forall>iv \<in> set ivs. 0 \<le> fst iv \<and> snd iv \<le> n))"

text \<open>Two rectangles share no point.\<close>

definition disjoint_rects :: "rect \<Rightarrow> rect \<Rightarrow> bool" where
  "disjoint_rects r1 r2 = (\<forall>p. inside r1 p \<longrightarrow> \<not> inside r2 p)"

text \<open>The cells are built from row intervals and column intervals that form chains on the two axes of the image.\<close>

definition grid_cells :: "grid \<Rightarrow> rect list \<Rightarrow> bool" where
  "grid_cells arr cells =
     (\<exists>hs vs. cells = interval_cells hs vs \<and> chain (int (height arr)) hs \<and> chain (int (width arr)) vs)"

text \<open>A sheet of 11 rows and 23 columns with one black column in the middle.\<close>

definition split_sheet :: grid where
  "split_sheet = sheet 11 23 (\<lambda>x y. x = 11)"

text \<open>A sheet of 11 rows and 40 columns: two chequered blocks with a white gap of 8 columns between them.\<close>

definition gap_sheet :: grid where
  "gap_sheet = sheet 11 40 (\<lambda>x y. (x < 16 \<or> 24 \<le> x) \<and> even (x + y))"

section \<open>Properties of the background remover\<close>

declare flood.simps [simp del]

subsection \<open>The masking step\<close>



lemma width_nth: "arr \<noteq> [] \<Longrightarrow> width arr = length (arr ! 0)"
  by (cases arr) (simp_all add: width_def)

lemma rectangular_nth: "rectangular arr \<Longrightarrow> y < length arr \<Longrightarrow> length (arr ! y) = width arr"
  by (simp add: rectangular_def list_all_length)

lemma length_apply_mask: "length (apply_mask arr m) = length arr"
  by (simp add: apply_mask_def)

lemma length_nth_apply_mask: "y < length arr \<Longrightarrow> length (apply_mask arr m ! y) = length (arr ! y)"
  by (simp add: apply_mask_def)

lemma nth_apply_mask:
  "y < length arr \<Longrightarrow> x < length (arr ! y) \<Longrightarrow>
   apply_mask arr m ! y ! x = (if (int x, int y) \<in> m then (arr ! y ! x)\<lparr>alpha := 0\<rparr> else arr ! y ! x)"
  by (simp add: apply_mask_def)

lemma height_apply_mask: "height (apply_mask arr m) = height arr"
  by (simp add: height_def length_apply_mask)

lemma width_apply_mask: "width (apply_mask arr m) = width arr"
proof (cases "arr = []")
  case True
  then show ?thesis by (simp add: apply_mask_def)
next
  case False
  then have "apply_mask arr m \<noteq> []" using length_apply_mask [of arr m] by auto
  then show ?thesis using False
    by (simp add: width_nth length_nth_apply_mask)
qed

lemma rectangular_apply_mask: "rectangular arr \<Longrightarrow> rectangular (apply_mask arr m)"
  by (simp add: rectangular_def list_all_length length_apply_mask length_nth_apply_mask width_apply_mask)

lemma channels_apply_mask: "channels (apply_mask arr m) = channels arr"
proof (rule nth_equalityI)
  show "length (channels (apply_mask arr m)) = length (channels arr)"
    by (simp add: channels_def length_apply_mask)
next
  fix y assume "y < length (channels (apply_mask arr m))"
  then have y: "y < length arr" by (simp add: channels_def length_apply_mask)
  have "map rgb (apply_mask arr m ! y) = map rgb (arr ! y)"
    by (rule nth_equalityI) (simp_all add: y length_nth_apply_mask nth_apply_mask rgb_def)
  then show "channels (apply_mask arr m) ! y = channels arr ! y"
    using y by (simp add: channels_def length_apply_mask)
qed

lemma apply_mask_idem: "apply_mask (apply_mask arr m) m = apply_mask arr m"
proof (rule nth_equalityI)
  show "length (apply_mask (apply_mask arr m) m) = length (apply_mask arr m)"
    by (simp add: length_apply_mask)
next
  fix y assume "y < length (apply_mask (apply_mask arr m) m)"
  then have y: "y < length arr" by (simp add: length_apply_mask)
  show "apply_mask (apply_mask arr m) m ! y = apply_mask arr m ! y"
    by (rule nth_equalityI)
       (simp_all add: y length_apply_mask length_nth_apply_mask nth_apply_mask)
qed

lemma background_mask_apply_mask:
  "background_mask (apply_mask arr m) cfg = background_mask arr cfg"
  by (simp add: background_mask_def channels_apply_mask height_apply_mask width_apply_mask)


text \<open>
  C6. On a cell of at least one row and one column \<open>remove_background\<close> returns a grid of
  the same height and width in which the red, green and blue bytes of every pixel are
  those of the input, the alpha byte of every masked pixel is 0 and the alpha byte of
  every other pixel is that of the input.
\<close>

theorem remove_background_frame:
  assumes "rectangular arr" and "0 < height arr" and "0 < width arr"
  shows "\<exists>out. remove_background arr cfg = Inr out \<and>
           height out = height arr \<and> width out = width arr \<and> rectangular out \<and>
           (\<forall>y < height arr. \<forall>x < width arr.
              red (out ! y ! x) = red (arr ! y ! x) \<and>
              green (out ! y ! x) = green (arr ! y ! x) \<and>
              blue (out ! y ! x) = blue (arr ! y ! x) \<and>
              alpha (out ! y ! x) =
                (if (int x, int y) \<in> background_mask arr cfg then 0 else alpha (arr ! y ! x)))"
proof -
  let ?out = "apply_mask arr (background_mask arr cfg)"
  have "remove_background arr cfg = Inr ?out"
    using assms by (simp add: remove_background_def)
  moreover have "height ?out = height arr" "width ?out = width arr" "rectangular ?out"
    using assms by (simp_all add: height_apply_mask width_apply_mask rectangular_apply_mask)
  moreover have "red (?out ! y ! x) = red (arr ! y ! x) \<and>
              green (?out ! y ! x) = green (arr ! y ! x) \<and>
              blue (?out ! y ! x) = blue (arr ! y ! x) \<and>
              alpha (?out ! y ! x) =
                (if (int x, int y) \<in> background_mask arr cfg then 0 else alpha (arr ! y ! x))"
    if "y < height arr" "x < width arr" for x y
  proof -
    have "y < length arr" using that by (simp add: height_def)
    moreover have "x < length (arr ! y)" using that assms(1) \<open>y < length arr\<close>
      by (simp add: rectangular_nth)
    ultimately show ?thesis by (simp add: nth_apply_mask)
  qed
  ultimately show ?thesis by blast
qed

theorem remove_background_frame_witness:
  "rectangular [[white_px, dark_px]] \<and> 0 < height [[white_px, dark_px]] \<and> 0 < width [[white_px, dark_px]] \<and>
   (\<exists>out. remove_background [[white_px, dark_px]] default_config = Inr out \<and>
      height out = 1 \<and> width out = 2 \<and> alpha (out ! 0 ! 0) = 0 \<and> alpha (out ! 0 ! 1) = 255 \<and>
      red (out ! 0 ! 0) = 255)"
proof -
  have h1: "rectangular [[white_px, dark_px]]" by code_simp
  have h2: "0 < height [[white_px, dark_px]]" by code_simp
  have h3: "0 < width [[white_px, dark_px]]" by code_simp
  have m0: "(0, 0) \<in> background_mask [[white_px, dark_px]] default_config" by code_simp
  have m1: "(1, 0) \<notin> background_mask [[white_px, dark_px]] default_config" by code_simp
  from remove_background_frame [OF h1 h2 h3, of default_config]
  obtain out where o: "remove_background [[white_px, dark_px]] default_config = Inr out"
     "height out = height [[white_px, dark_px]]" "width out = width [[white_px, dark_px]]"
     "\<forall>y < height [[white_px, dark_px]]. \<forall>x < width [[white_px, dark_px]].
              red (out ! y ! x) = red ([[white_px, dark_px]] ! y ! x) \<and>
              green (out ! y ! x) = green ([[white_px, dark_px]] ! y ! x) \<and>
              blue (out ! y ! x) = blue ([[white_px, dark_px]] ! y ! x) \<and>
              alpha (out ! y ! x) =
                (if (int x, int y) \<in> background_mask [[white_px, dark_px]] default_config then 0 else alpha ([[white_px, dark_px]] ! y ! x))"
    by blast
  have hw: "height [[white_px, dark_px]] = 1" "width [[white_px, dark_px]] = 2"
    by (simp_all add: height_def width_def)
  from o(4) have "alpha (out ! 0 ! 0) = 0" "alpha (out ! 0 ! 1) = 255" "red (out ! 0 ! 0) = 255"
    using m0 m1 unfolding hw by (auto simp: white_px_def dark_px_def)
  with o h1 h2 h3 hw show ?thesis by auto
qed

text \<open>
  C7. \<open>remove_background\<close> is idempotent: applied to its own output it returns that output
  again (and fails where the first application fails), and the background mask it
  computes on its output is the mask it computed on the input.
\<close>

theorem remove_background_idempotent:
  "(case remove_background arr cfg of
      Inl e \<Rightarrow> Inl e
    | Inr out \<Rightarrow> remove_background out cfg) = remove_background arr cfg
   \<and> (case remove_background arr cfg of
      Inl e \<Rightarrow> True
    | Inr out \<Rightarrow> background_mask out cfg = background_mask arr cfg)"
  by (simp add: remove_background_def background_mask_apply_mask apply_mask_idem
      height_apply_mask width_apply_mask)

theorem remove_background_idempotent_witness:
  "\<exists>out. remove_background [[white_px, dark_px, white_px]] default_config = Inr out \<and>
     remove_background out default_config = Inr out \<and>
     background_mask out default_config = {(0, 0), (2, 0)}"
proof -
  have r: "remove_background [[white_px, dark_px, white_px]] default_config =
      Inr (apply_mask [[white_px, dark_px, white_px]]
             (background_mask [[white_px, dark_px, white_px]] default_config))"
    by (simp add: remove_background_def width_def)
  have m: "background_mask [[white_px, dark_px, white_px]] default_config = {(0, 0), (2, 0)}"
    by code_simp
  show ?thesis
    using remove_background_idempotent [where arr = "[[white_px, dark_px, white_px]]" and cfg = default_config]
    unfolding r by (simp add: m)
qed

subsection \<open>Soundness of the flood fill\<close>


lemma near_white_within_tolerance:
  "0 \<le> flood_fill_tolerance cfg \<Longrightarrow> is_near_white cfg c \<Longrightarrow> within_tolerance cfg c"
  by (cases c) (auto simp: is_near_white_def within_tolerance_def)

lemma px_at_channels:
  assumes "rectangular arr" and "in_bounds arr p"
  shows "px_at (channels arr) p = rgb (px_at arr p)"
proof -
  have y: "nat (snd p) < length arr"
    using assms(2) unfolding in_bounds_def height_def by linarith
  then have "length (arr ! nat (snd p)) = width arr" using assms(1) by (simp add: rectangular_nth)
  then have x: "nat (fst p) < length (arr ! nat (snd p))"
    using assms(2) unfolding in_bounds_def by linarith
  show ?thesis using x y by (simp add: px_at_def channels_def)
qed

lemma border_connected_base:
  "in_bounds arr p \<Longrightarrow> on_border arr p \<Longrightarrow> within_tolerance cfg (rgb (px_at arr p)) \<Longrightarrow>
   border_connected arr cfg p"
  unfolding border_connected_def tolerance_path_def
  by (rule exI [of _ "[p]"]) simp

lemma border_connected_step:
  assumes "border_connected arr cfg c" and "adjacent c p" and "in_bounds arr p"
    and "within_tolerance cfg (rgb (px_at arr p))"
  shows "border_connected arr cfg p"
proof -
  from assms(1) obtain path where p: "tolerance_path arr cfg path" "last path = c"
    unfolding border_connected_def by blast
  then have "tolerance_path arr cfg (path @ [p])"
    using assms(2-4) by (simp add: tolerance_path_def successively_append_iff)
  then show ?thesis unfolding border_connected_def by (intro exI [of _ "path @ [p]"]) simp
qed

lemma mark_seeds_mask:
  "bg_mask (mark_seeds ch cfg seeds st) \<subseteq> bg_mask st \<union> set seeds"
proof (induction seeds arbitrary: st)
  case Nil
  then show ?case by simp
next
  case (Cons s seeds)
  show ?case
    using Cons.IH [of st] Cons.IH [of "st\<lparr>visited := insert s (visited st)\<rparr>"]
      Cons.IH [of "st\<lparr>visited := insert s (visited st), bg_mask := insert s (bg_mask st)\<rparr>"]
    by (auto simp: Let_def)
qed

lemma collect_seeds_border:
  assumes "0 < w" and "0 < h" and "p \<in> set (collect_seeds ch cfg w h)"
  shows "0 \<le> fst p \<and> fst p < w \<and> 0 \<le> snd p \<and> snd p < h \<and>
         (fst p = 0 \<or> fst p = w - 1 \<or> snd p = 0 \<or> snd p = h - 1) \<and>
         is_near_white cfg (px_at ch p)"
  using assms by (auto simp: collect_seeds_def split: if_splits)

lemma visit_mask:
  assumes "p \<in> bg_mask (visit ch cfg w h c d st) \<or> p \<in> set (queue (visit ch cfg w h c d st))"
  shows "p \<in> bg_mask st \<or> p \<in> set (queue st) \<or>
         (p = (fst c + fst d, snd c + snd d) \<and> 0 \<le> fst p \<and> fst p < w \<and> 0 \<le> snd p \<and> snd p < h \<and>
          within_tolerance cfg (px_at ch p))"
  using assms by (auto simp: visit_def Let_def split: if_splits)


lemma visit_invariant:
  assumes closed: "\<And>p. p = (fst c + fst d, snd c + snd d) \<Longrightarrow>
             0 \<le> fst p \<Longrightarrow> fst p < w \<Longrightarrow> 0 \<le> snd p \<Longrightarrow> snd p < h \<Longrightarrow>
             within_tolerance cfg (px_at ch p) \<Longrightarrow> p \<in> S"
    and "set (queue st) \<subseteq> S" and "bg_mask st \<subseteq> S"
  shows "set (queue (visit ch cfg w h c d st)) \<subseteq> S \<and> bg_mask (visit ch cfg w h c d st) \<subseteq> S"
proof -
  have "p \<in> S" if "p \<in> bg_mask (visit ch cfg w h c d st) \<or> p \<in> set (queue (visit ch cfg w h c d st))" for p
    using visit_mask [OF that] assms(2,3) closed [of p] by blast
  then show ?thesis by blast
qed

lemma fold_visit_invariant:
  assumes closed: "\<And>d p. d \<in> set ds \<Longrightarrow> p = (fst c + fst d, snd c + snd d) \<Longrightarrow>
             0 \<le> fst p \<Longrightarrow> fst p < w \<Longrightarrow> 0 \<le> snd p \<Longrightarrow> snd p < h \<Longrightarrow>
             within_tolerance cfg (px_at ch p) \<Longrightarrow> p \<in> S"
  shows "set (queue st) \<subseteq> S \<Longrightarrow> bg_mask st \<subseteq> S \<Longrightarrow>
         set (queue (fold (visit ch cfg w h c) ds st)) \<subseteq> S \<and>
         bg_mask (fold (visit ch cfg w h c) ds st) \<subseteq> S"
  using closed
proof (induction ds arbitrary: st)
  case Nil
  then show ?case by simp
next
  case (Cons d ds)
  have v: "set (queue (visit ch cfg w h c d st)) \<subseteq> S \<and> bg_mask (visit ch cfg w h c d st) \<subseteq> S"
    by (rule visit_invariant [OF _ Cons.prems(1,2)]) (rule Cons.prems(3), simp_all)
  have "set (queue (fold (visit ch cfg w h c) ds (visit ch cfg w h c d st))) \<subseteq> S \<and>
        bg_mask (fold (visit ch cfg w h c) ds (visit ch cfg w h c d st)) \<subseteq> S"
    by (rule Cons.IH) (use v in blast, use v in blast, rule Cons.prems(3), simp_all)
  then show ?case by simp
qed

lemma flood_invariant:
  assumes closed: "\<And>c d p. c \<in> S \<Longrightarrow> d \<in> set directions \<Longrightarrow> p = (fst c + fst d, snd c + snd d) \<Longrightarrow>
             0 \<le> fst p \<Longrightarrow> fst p < w \<Longrightarrow> 0 \<le> snd p \<Longrightarrow> snd p < h \<Longrightarrow>
             within_tolerance cfg (px_at ch p) \<Longrightarrow> p \<in> S"
  shows "set (queue st) \<subseteq> S \<Longrightarrow> bg_mask st \<subseteq> S \<Longrightarrow> bg_mask (flood ch cfg w h st) \<subseteq> S"
  using closed
proof (induction ch cfg w h st rule: flood.induct)
  case (1 ch cfg w h st)
  show ?case
  proof (cases "queue st")
    case Nil
    then show ?thesis using "1.prems"(2) by (subst flood.simps) simp
  next
    case (Cons c rest)
    have cS: "c \<in> S" using Cons "1.prems"(1) by simp
    let ?st = "fold (visit ch cfg w h c) directions (st\<lparr>queue := rest\<rparr>)"
    have f: "set (queue ?st) \<subseteq> S \<and> bg_mask ?st \<subseteq> S"
    proof (rule fold_visit_invariant)
      show "set (queue (st\<lparr>queue := rest\<rparr>)) \<subseteq> S" using Cons "1.prems"(1) by auto
      show "bg_mask (st\<lparr>queue := rest\<rparr>) \<subseteq> S" using "1.prems"(2) by simp
    next
      fix d p
      assume "d \<in> set directions" "p = (fst c + fst d, snd c + snd d)"
        "0 \<le> fst p" "fst p < w" "0 \<le> snd p" "snd p < h" "within_tolerance cfg (px_at ch p)"
      then show "p \<in> S" by (rule "1.prems"(3) [OF cS])
    qed
    have "bg_mask (flood ch cfg w h ?st) \<subseteq> S"
      by (rule "1.IH" [OF Cons]) (use f in blast, use f in blast, rule "1.prems"(3))
    then show ?thesis using Cons by (subst flood.simps) simp
  qed
qed


lemma background_mask_sound:
  assumes rect: "rectangular arr" and tol: "0 \<le> flood_fill_tolerance cfg" and w: "0 < width arr"
    and p: "p \<in> background_mask arr cfg"
  shows "border_connected arr cfg p"
proof -
  let ?S = "{p. border_connected arr cfg p}"
  let ?ch = "channels arr" and ?w = "int (width arr)" and ?h = "int (height arr)"
  let ?seeds = "collect_seeds ?ch cfg ?w ?h"
  let ?st = "mark_seeds ?ch cfg ?seeds \<lparr>queue = [], visited = {}, bg_mask = {}\<rparr>"
  have h: "0 < height arr" using w by (cases arr) (simp_all add: width_def height_def)
  have seeds: "set ?seeds \<subseteq> ?S"
  proof
    fix s assume "s \<in> set ?seeds"
    from collect_seeds_border [OF _ _ this] w h
    have b: "in_bounds arr s" "on_border arr s" "is_near_white cfg (px_at ?ch s)"
      by (simp_all add: in_bounds_def on_border_def)
    from b(3) have "within_tolerance cfg (rgb (px_at arr s))"
      using near_white_within_tolerance [OF tol] px_at_channels [OF rect b(1)] by simp
    then show "s \<in> ?S" using border_connected_base b(1,2) by simp
  qed
  have "bg_mask (flood ?ch cfg ?w ?h (?st\<lparr>queue := filter (\<lambda>p. p \<in> bg_mask ?st) ?seeds\<rparr>)) \<subseteq> ?S"
  proof (rule flood_invariant)
    show "set (queue (?st\<lparr>queue := filter (\<lambda>p. p \<in> bg_mask ?st) ?seeds\<rparr>)) \<subseteq> ?S"
      using seeds by auto
    show "bg_mask (?st\<lparr>queue := filter (\<lambda>p. p \<in> bg_mask ?st) ?seeds\<rparr>) \<subseteq> ?S"
      using seeds mark_seeds_mask [of ?ch cfg ?seeds "\<lparr>queue = [], visited = {}, bg_mask = {}\<rparr>"]
      by auto
  next
    fix c d q
    assume c: "c \<in> ?S" and d: "d \<in> set directions" and q: "q = (fst c + fst d, snd c + snd d)"
      and b: "0 \<le> fst q" "fst q < ?w" "0 \<le> snd q" "snd q < ?h"
      and t: "within_tolerance cfg (px_at ?ch q)"
    have ib: "in_bounds arr q" using b by (simp add: in_bounds_def)
    have adj: "adjacent c q" using d q by (auto simp: directions_def adjacent_def)
    have "within_tolerance cfg (rgb (px_at arr q))" using t px_at_channels [OF rect ib] by simp
    with c adj ib show "q \<in> ?S" using border_connected_step [of arr cfg c q] by simp
  qed
  then show ?thesis using p by (auto simp: background_mask_def Let_def)
qed

text \<open>
  C1. With a non-negative tolerance, a pixel of the cell that is not connected to the
  border by a 4-connected path of within-tolerance pixels is never masked:
  \<open>remove_background\<close> returns a grid in which that pixel has the alpha byte of the input.
\<close>

theorem interior_white_survives:
  assumes "rectangular arr" and "0 \<le> flood_fill_tolerance cfg"
    and "x < width arr" and "y < height arr"
    and "\<not> border_connected arr cfg (int x, int y)"
  shows "(int x, int y) \<notin> background_mask arr cfg \<and>
         (\<exists>out. remove_background arr cfg = Inr out \<and> alpha (out ! y ! x) = alpha (arr ! y ! x))"
proof -
  have w: "0 < width arr" using assms(3) by simp
  have m: "(int x, int y) \<notin> background_mask arr cfg"
    using background_mask_sound [OF assms(1,2) w] assms(5) by blast
  have y: "y < length arr" using assms(4) by (simp add: height_def)
  have x: "x < length (arr ! y)" using assms(1,3) y by (simp add: rectangular_nth)
  have "remove_background arr cfg = Inr (apply_mask arr (background_mask arr cfg))"
    using w by (simp add: remove_background_def)
  moreover have "alpha (apply_mask arr (background_mask arr cfg) ! y ! x) = alpha (arr ! y ! x)"
    using m x y by (simp add: nth_apply_mask)
  ultimately show ?thesis using m by blast
qed

theorem interior_white_survives_witness:
  "rectangular enclosed_white \<and> 0 \<le> flood_fill_tolerance default_config \<and>
   1 < width enclosed_white \<and> 1 < height enclosed_white \<and>
   \<not> border_connected enclosed_white default_config (1, 1) \<and>
   is_near_white default_config (rgb (px_at enclosed_white (1, 1))) \<and>
   (1, 1) \<notin> background_mask enclosed_white default_config \<and>
   (\<exists>out. remove_background enclosed_white default_config = Inr out \<and> alpha (out ! 1 ! 1) = 255)"
proof -
  have h1: "rectangular enclosed_white" by code_simp
  have h2: "0 \<le> flood_fill_tolerance default_config" by (simp add: default_config_def)
  have h3: "1 < width enclosed_white" by code_simp
  have h4: "1 < height enclosed_white" by code_simp
  have nw: "is_near_white default_config (rgb (px_at enclosed_white (1, 1)))" by code_simp
  have h5: "\<not> border_connected enclosed_white default_config (int 1, int 1)"
  proof
    assume "border_connected enclosed_white default_config (int 1, int 1)"
    then obtain path where t: "tolerance_path enclosed_white default_config path"
      unfolding border_connected_def by blast
    obtain a b where q: "hd path = (a, b)" by (cases "hd path")
    from t have ne: "path \<noteq> []" and bd: "on_border enclosed_white (a, b)"
      and "list_all (\<lambda>p. in_bounds enclosed_white p \<and>
             within_tolerance default_config (rgb (px_at enclosed_white p))) path"
      unfolding tolerance_path_def q by simp_all
    with ne have ib: "in_bounds enclosed_white (a, b)"
      and wt: "within_tolerance default_config (rgb (px_at enclosed_white (a, b)))"
      using q by (cases path; simp)+
    have hw: "width enclosed_white = 3" "height enclosed_white = 3" by code_simp+
    from ib have "a = 0 \<or> a = 1 \<or> a = 2" "b = 0 \<or> b = 1 \<or> b = 2"
      unfolding in_bounds_def hw by auto
    moreover from bd have "a = 0 \<or> a = 2 \<or> b = 0 \<or> b = 2"
      unfolding on_border_def hw by auto
    ultimately show False using wt
      by (elim disjE; simp add: enclosed_white_def px_at_def rgb_def dark_px_def white_px_def
            within_tolerance_def default_config_def)
  qed
  have a: "alpha (enclosed_white ! 1 ! 1) = 255" by (simp add: enclosed_white_def white_px_def)
  from interior_white_survives [OF h1 h2, of 1 1] h3 h4 h5
  show ?thesis using h1 h2 h3 h4 h5 nw a by simp
qed

section \<open>Properties of the grid detector\<close>

lemma detect_separator_lines_length:
  "detect_separator_lines arr cfg = Some cells \<Longrightarrow> 1 < length cells"
  by (auto simp: detect_separator_lines_def Let_def split: if_splits)

lemma detect_white_gaps_length:
  "detect_white_gaps arr cfg = Some cells \<Longrightarrow> 1 < length cells"
  by (auto simp: detect_white_gaps_def Let_def split: if_splits)

text \<open>
  C2. \<open>detect_cells\<close> returns at least one rectangle on every grid and configuration; when
  the separator-line strategy and the white-gap strategy both fail, the result is the
  single rectangle \<open>(0, 0, W, H)\<close>. (The model of the detector has no error result.)
\<close>

theorem detect_cells_nonempty:
  "detect_cells arr cfg \<noteq> [] \<and>
   (detect_separator_lines arr cfg = None \<and> detect_white_gaps arr cfg = None \<longrightarrow>
      detect_cells arr cfg = [(0, 0, int (width arr), int (height arr))])"
proof -
  have "detect_cells arr cfg \<noteq> []"
    using detect_separator_lines_length [of arr cfg] detect_white_gaps_length [of arr cfg]
    by (auto simp: detect_cells_def split: option.splits)
  then show ?thesis by (simp add: detect_cells_def)
qed

theorem detect_cells_nonempty_witness:
  "detect_separator_lines (sheet 2 2 (\<lambda>x y. False)) default_config = None \<and>
   detect_white_gaps (sheet 2 2 (\<lambda>x y. False)) default_config = None \<and>
   detect_cells (sheet 2 2 (\<lambda>x y. False)) default_config = [(0, 0, 2, 2)]"
proof -
  have h1: "detect_separator_lines (sheet 2 2 (\<lambda>x y. False)) default_config = None" by code_simp
  have h2: "detect_white_gaps (sheet 2 2 (\<lambda>x y. False)) default_config = None" by code_simp
  have w: "int (width (sheet 2 2 (\<lambda>x y. False))) = 2" "int (height (sheet 2 2 (\<lambda>x y. False))) = 2"
    by code_simp+
  show ?thesis
    using detect_cells_nonempty [of "sheet 2 2 (\<lambda>x y. False)" default_config] h1 h2
    by (simp add: w)
qed

text \<open>
  C3. The code at the failing input. On the crossed sheet row 5 is a detected separator
  band \<open>(5, 6)\<close> of thickness 1, but no row interval of more than 10 pixels lies beside
  it, \<open>_bands_to_gap_intervals\<close> returns \<open>None\<close> for the rows and the caller takes the
  whole axis: the strategy succeeds with two cells that both contain the pixels of row 5.
\<close>

theorem separator_band_inside_cell:
  "separator_bands (filled_row_mask crossed_sheet default_config) = [(5, 6)] \<and>
   detect_separator_lines crossed_sheet default_config = Some [(0, 0, 12, 15), (13, 0, 12, 15)] \<and>
   detect_cells crossed_sheet default_config = [(0, 0, 12, 15), (13, 0, 12, 15)] \<and>
   inside (0, 0, 12, 15) (3, 5)"
  by code_simp

text \<open>
  C4, as stated, fails: on an image of one white pixel both strategies fail and the
  fallback rectangle \<open>(0, 0, 1, 1)\<close> is not wider and higher than 10 pixels.
\<close>

theorem fallback_rect_small:
  "\<not> (\<forall>r \<in> set (detect_cells [[white_px]] default_config).
        case r of (x, y, w, h) \<Rightarrow>
          0 \<le> x \<and> x + w \<le> int (width [[white_px]]) \<and> 0 \<le> y \<and> y + h \<le> int (height [[white_px]]) \<and>
          w > 10 \<and> h > 10)"
proof -
  have "detect_cells [[white_px]] default_config = [(0, 0, 1, 1)]" by code_simp
  then show ?thesis by simp
qed

lemma splits_are_balanced_iff:
  "splits_are_balanced splits tot \<longleftrightarrow>
     (\<forall>i. Suc i < length splits \<longrightarrow> tot \<le> 4 * (splits ! Suc i - splits ! i))"
proof (induction splits tot rule: splits_are_balanced.induct)
  case (1 a b splits tot)
  show ?case
  proof (cases "4 * (b - a) < tot")
    case True
    then have "\<not> tot \<le> 4 * ((a # b # splits) ! Suc 0 - (a # b # splits) ! 0)" by simp
    then have "\<not> (\<forall>i. Suc i < length (a # b # splits) \<longrightarrow>
        tot \<le> 4 * ((a # b # splits) ! Suc i - (a # b # splits) ! i))"
      by (metis length_Cons zero_less_Suc Suc_less_eq)
    then show ?thesis using True by simp
  next
    case False
    have "(\<forall>i. Suc i < length (a # b # splits) \<longrightarrow>
        tot \<le> 4 * ((a # b # splits) ! Suc i - (a # b # splits) ! i)) \<longleftrightarrow>
        (\<forall>i. Suc i < length (b # splits) \<longrightarrow> tot \<le> 4 * ((b # splits) ! Suc i - (b # splits) ! i))"
      (is "?L \<longleftrightarrow> ?R")
    proof
      assume l: ?L
      show ?R
      proof (intro allI impI)
        fix i assume "Suc i < length (b # splits)"
        then show "tot \<le> 4 * ((b # splits) ! Suc i - (b # splits) ! i)"
          using l [rule_format, of "Suc i"] by simp
      qed
    next
      assume r: ?R
      show ?L
      proof (intro allI impI)
        fix i assume i: "Suc i < length (a # b # splits)"
        show "tot \<le> 4 * ((a # b # splits) ! Suc i - (a # b # splits) ! i)"
        proof (cases i)
          case 0
          then show ?thesis using False by simp
        next
          case (Suc j)
          then show ?thesis using r [rule_format, of j] i by simp
        qed
      qed
    qed
    then show ?thesis using False "1.IH" by simp
  qed
qed simp_all

lemma select_loop_Some:
  "select_loop ns sg tot = Some c \<Longrightarrow>
   splits_are_balanced (gaps_to_splits (Some c) tot) tot \<and>
   (\<exists>n \<in> set ns. n \<le> length sg \<and> c = sort_key fst (take n sg))"
  by (induction ns) (auto simp: Let_def split: if_splits)

text \<open>
  C5. On an axis of length \<open>tot\<close> with gap bands \<open>gaps\<close>, every segment between consecutive
  split positions (from 0 to the first, between two, from the last to \<open>tot\<close>) is at least a
  quarter of \<open>tot\<close>; and if no choice of two gaps and no choice of one gap passes the
  balance check, the axis is the single segment \<open>[0, tot]\<close>.
\<close>

theorem gap_splits_balanced:
  assumes "0 \<le> tot"
  shows "(\<forall>i. Suc i < length (gaps_to_splits (select_best_gaps gaps tot) tot) \<longrightarrow>
            tot \<le> 4 * (gaps_to_splits (select_best_gaps gaps tot) tot ! Suc i -
                       gaps_to_splits (select_best_gaps gaps tot) tot ! i)) \<and>
         ((\<forall>cand. set cand \<subseteq> set gaps \<and> (length cand = 2 \<or> length cand = 1) \<longrightarrow>
             \<not> splits_are_balanced (gaps_to_splits (Some (sort_key fst cand)) tot) tot) \<longrightarrow>
          gaps_to_splits (select_best_gaps gaps tot) tot = [0, tot])"
proof (intro conjI impI)
  show "\<forall>i. Suc i < length (gaps_to_splits (select_best_gaps gaps tot) tot) \<longrightarrow>
            tot \<le> 4 * (gaps_to_splits (select_best_gaps gaps tot) tot ! Suc i -
                       gaps_to_splits (select_best_gaps gaps tot) tot ! i)"
  proof (cases "select_best_gaps gaps tot")
    case None
    then show ?thesis using assms by (simp add: gaps_to_splits_def)
  next
    case (Some c)
    then have "select_loop [2, 1] (sort_key (\<lambda>g. - (snd g - fst g)) gaps) tot = Some c"
      by (simp add: select_best_gaps_def Let_def split: if_splits)
    from select_loop_Some [OF this]
    have "splits_are_balanced (gaps_to_splits (Some c) tot) tot" by blast
    then show ?thesis unfolding Some splits_are_balanced_iff .
  qed
next
  assume none: "\<forall>cand. set cand \<subseteq> set gaps \<and> (length cand = 2 \<or> length cand = 1) \<longrightarrow>
             \<not> splits_are_balanced (gaps_to_splits (Some (sort_key fst cand)) tot) tot"
  have "select_best_gaps gaps tot = None"
  proof (rule ccontr)
    assume "select_best_gaps gaps tot \<noteq> None"
    then obtain c where "select_best_gaps gaps tot = Some c" by blast
    then have "select_loop [2, 1] (sort_key (\<lambda>g. - (snd g - fst g)) gaps) tot = Some c"
      by (simp add: select_best_gaps_def Let_def split: if_splits)
    from select_loop_Some [OF this]
    obtain n where n: "n = 2 \<or> n = 1" "n \<le> length (sort_key (\<lambda>g. - (snd g - fst g)) gaps)"
      "c = sort_key fst (take n (sort_key (\<lambda>g. - (snd g - fst g)) gaps))"
      and bal: "splits_are_balanced (gaps_to_splits (Some c) tot) tot"
      by auto
    let ?cand = "take n (sort_key (\<lambda>g. - (snd g - fst g)) gaps)"
    have "set ?cand \<subseteq> set gaps" using set_take_subset [of n "sort_key (\<lambda>g. - (snd g - fst g)) gaps"]
      by simp
    moreover have "length ?cand = 2 \<or> length ?cand = 1" using n(1,2) by auto
    ultimately show False using none bal n(3) by blast
  qed
  then show "gaps_to_splits (select_best_gaps gaps tot) tot = [0, tot]"
    by (simp add: gaps_to_splits_def)
qed

theorem gap_splits_balanced_witness:
  "(0::int) \<le> 100 \<and>
   gaps_to_splits (select_best_gaps [(30, 40), (60, 70)] 100) 100 = [0, 35, 65, 100] \<and>
   100 \<le> 4 * (gaps_to_splits (select_best_gaps [(30, 40), (60, 70)] 100) 100 ! Suc 1 -
              gaps_to_splits (select_best_gaps [(30, 40), (60, 70)] 100) 100 ! 1) \<and>
   \<not> splits_are_balanced (gaps_to_splits (Some (sort_key fst [(10, 14)])) 100) 100 \<and>
   \<not> splits_are_balanced (gaps_to_splits (Some (sort_key fst [(10, 14), (10, 14)])) 100) 100 \<and>
   gaps_to_splits (select_best_gaps [(10, 14)] 100) 100 = [0, 100]"
proof -
  have h: "(0::int) \<le> 100" by simp
  have e: "gaps_to_splits (select_best_gaps [(30, 40), (60, 70)] 100) 100 = [0, 35, 65, 100]"
    by code_simp
  have l: "Suc 1 < length (gaps_to_splits (select_best_gaps [(30, 40), (60, 70)] 100) 100)"
    unfolding e by simp
  have u: "\<not> splits_are_balanced (gaps_to_splits (Some (sort_key fst cand)) 100) 100"
    if "set cand \<subseteq> set [(10, 14)] \<and> (length cand = 2 \<or> length cand = 1)" for cand :: "(int \<times> int) list"
  proof -
    from that have "cand = [(10, 14)] \<or> cand = [(10, 14), (10, 14)]"
      by (cases cand; cases "tl cand"; cases "tl (tl cand)") auto
    then show ?thesis by (auto simp: gaps_to_splits_def)
  qed
  have u': "\<forall>cand. set cand \<subseteq> set [(10, 14)] \<and> (length cand = 2 \<or> length cand = 1) \<longrightarrow>
      \<not> splits_are_balanced (gaps_to_splits (Some (sort_key fst cand)) 100) 100"
    using u by blast
  note p1 = gap_splits_balanced [OF h, of "[(30, 40), (60, 70)]", THEN conjunct1, rule_format, OF l]
  note p2 = gap_splits_balanced [OF h, of "[(10, 14)]", THEN conjunct2, THEN mp, OF u']
  show ?thesis
    by (intro conjI) (rule h, rule e, rule p1, rule u, simp, rule u, simp, rule p2)
qed

section \<open>Properties of the sprite cropper\<close>

lemma takeWhile_not_le:
  "length (takeWhile (\<lambda>b. \<not> b) (xs @ True # ys)) \<le> length xs"
  by (induction xs) auto

lemma takeWhile_not_first:
  "True \<notin> set xs \<Longrightarrow> takeWhile (\<lambda>b. \<not> b) (xs @ True # ys) = xs"
  by (induction xs) auto

lemma argmax_bool_first_last:
  assumes "bs \<noteq> []"
  shows "int (argmax_bool bs) \<le> int (length bs) - 1 - int (argmax_bool (rev bs))"
proof (cases "list_ex (\<lambda>b. b) bs")
  case False
  then have "argmax_bool bs = 0" "argmax_bool (rev bs) = 0"
    by (simp_all add: argmax_bool_def list_ex_rev)
  then show ?thesis using assms by (cases bs) simp_all
next
  case True
  then have "True \<in> set bs" by (auto simp: list_ex_iff)
  then obtain xs ys where bs: "bs = xs @ True # ys" and "True \<notin> set xs"
    by (auto dest: split_list_first)
  then have f: "length (takeWhile (\<lambda>b. \<not> b) bs) = length xs"
    by (simp add: takeWhile_not_first)
  have "rev bs = rev ys @ True # rev xs" using bs by simp
  then have "length (takeWhile (\<lambda>b. \<not> b) (rev bs)) \<le> length ys"
    using takeWhile_not_le [of "rev ys" "rev xs"] by simp
  moreover have "list_ex (\<lambda>b. b) (rev bs)" using True by (simp add: list_ex_iff)
  ultimately show ?thesis using True f bs by (simp add: argmax_bool_def)
qed

text \<open>
  C8. On a cell of at least one row and one column, with a non-negative padding,
  \<open>crop_sprite\<close> returns the skip result exactly when the number of pixels with a non-zero
  alpha byte is below \<open>min_sprite_pixels\<close>, and otherwise it returns a pixel grid, never an
  error. (The witness is a cell of 150 opaque pixels, skipped at the threshold 200 and
  cropped at the threshold 150.)
\<close>

theorem crop_sprite_skip:
  assumes "0 < height arr" and "0 < width arr" and "0 \<le> padding cfg"
  shows "(crop_sprite arr cfg = Inr None \<longleftrightarrow> count_nonzero_alpha arr < min_sprite_pixels cfg) \<and>
         (\<not> count_nonzero_alpha arr < min_sprite_pixels cfg \<longrightarrow>
            (\<exists>cropped. crop_sprite arr cfg = Inr (Some cropped)))"
proof (cases "count_nonzero_alpha arr < min_sprite_pixels cfg")
  case True
  then show ?thesis by (simp add: crop_sprite_def)
next
  case False
  let ?rows = "map (list_ex (\<lambda>p. alpha p > 0)) arr"
  let ?cols = "map (list_ex (\<lambda>p. alpha p > 0)) (columns arr)"
  have "?rows \<noteq> []" using assms(1) by (auto simp: height_def)
  from argmax_bool_first_last [OF this]
  have y: "int (argmax_bool ?rows) \<le> int (length ?rows) - 1 - int (argmax_bool (rev ?rows))" .
  have "?cols \<noteq> []" using assms(2) by (auto simp: columns_def)
  from argmax_bool_first_last [OF this]
  have x: "int (argmax_bool ?cols) \<le> int (length ?cols) - 1 - int (argmax_bool (rev ?cols))" .
  have ly: "int (length ?rows) = int (height arr)" by (simp add: height_def)
  have lx: "int (length ?cols) = int (width arr)" by (simp add: columns_def)
  have "\<exists>cropped. crop_sprite arr cfg = Inr (Some cropped)"
    using False assms x y unfolding crop_sprite_def Let_def pil_crop_def ly lx
    by (auto simp: max_def min_def)
  then show ?thesis using False by auto
qed

theorem crop_sprite_skip_witness:
  "0 < height (replicate 10 (replicate 15 white_px)) \<and>
   0 < width (replicate 10 (replicate 15 white_px)) \<and>
   0 \<le> padding default_config \<and>
   count_nonzero_alpha (replicate 10 (replicate 15 white_px)) = 150 \<and>
   min_sprite_pixels default_config = 200 \<and>
   crop_sprite (replicate 10 (replicate 15 white_px)) default_config = Inr None \<and>
   (\<exists>cropped. crop_sprite (replicate 10 (replicate 15 white_px))
       (default_config\<lparr>min_sprite_pixels := 150\<rparr>) = Inr (Some cropped))"
proof -
  let ?arr = "replicate 10 (replicate 15 white_px)"
  have h1: "0 < height ?arr" by code_simp
  have h2: "0 < width ?arr" by code_simp
  have h3: "0 \<le> padding default_config" by code_simp
  have h3': "0 \<le> padding (default_config\<lparr>min_sprite_pixels := 150\<rparr>)" by code_simp
  have c: "count_nonzero_alpha ?arr = 150" by code_simp
  have m: "min_sprite_pixels default_config = 200" by code_simp
  have m': "min_sprite_pixels (default_config\<lparr>min_sprite_pixels := 150\<rparr>) = 150" by simp
  have "crop_sprite ?arr default_config = Inr None"
    using crop_sprite_skip [OF h1 h2 h3] c m by simp
  moreover have "\<exists>cropped. crop_sprite ?arr (default_config\<lparr>min_sprite_pixels := 150\<rparr>) = Inr (Some cropped)"
    using crop_sprite_skip [OF h1 h2 h3'] c m' by simp
  ultimately show ?thesis using h1 h2 h3 c m by blast
qed

lemma length_paste: "length (paste canvas im ox oy) = length canvas"
  by (simp add: paste_def)

lemma length_nth_paste:
  "y < length canvas \<Longrightarrow> length (paste canvas im ox oy ! y) = length (canvas ! y)"
  by (simp add: paste_def)

lemma nth_paste:
  "y < length canvas \<Longrightarrow> x < length (canvas ! y) \<Longrightarrow>
   paste canvas im ox oy ! y ! x =
     (if ox \<le> int x \<and> int x < ox + int (width im) \<and> oy \<le> int y \<and> int y < oy + int (height im)
      then px_at im (int x - ox, int y - oy) else canvas ! y ! x)"
  by (simp add: paste_def)

text \<open>
  C9, amended. For a sprite of at least one row and one column, \<open>resize_sprite\<close> returns a
  grid of exactly \<open>sz\<close> rows and \<open>sz\<close> columns. The scaled sprite has the width
  \<open>max(1, int(cw * scale))\<close> and the height \<open>max(1, int(ch * scale))\<close> of \<open>scaled_size\<close>, both
  at least 1; it is placed at the offsets \<open>(sz - new_w) div 2\<close> and \<open>(sz - new_h) div 2\<close>;
  every pixel of the canvas under the placed sprite is the pixel of the resampled sprite
  and every other pixel of the canvas has alpha 0.
\<close>

theorem resize_sprite_canvas:
  assumes "0 < width img" and "0 < height img"
    and "\<And>w h. 0 < w \<Longrightarrow> 0 < h \<Longrightarrow>
           height (resample img w h) = h \<and> width (resample img w h) = w"
  shows "\<exists>out new_w new_h.
           scaled_size fl (width img) (height img) sz = (new_w, new_h) \<and>
           resize_sprite fl resample img sz = Inr out \<and>
           height out = sz \<and> width out = sz \<and> rectangular out \<and>
           1 \<le> new_w \<and> 1 \<le> new_h \<and>
           (\<forall>y < sz. \<forall>x < sz.
              if (int sz - new_w) div 2 \<le> int x \<and> int x < (int sz - new_w) div 2 + new_w \<and>
                 (int sz - new_h) div 2 \<le> int y \<and> int y < (int sz - new_h) div 2 + new_h
              then out ! y ! x =
                     px_at (resample img (nat new_w) (nat new_h))
                       (int x - (int sz - new_w) div 2, int y - (int sz - new_h) div 2)
              else alpha (out ! y ! x) = 0)"
proof -
  obtain new_w new_h where s: "scaled_size fl (width img) (height img) sz = (new_w, new_h)"
    by (cases "scaled_size fl (width img) (height img) sz")
  have pos: "1 \<le> new_w" "1 \<le> new_h"
    using s by (auto simp: scaled_size_def Let_def)
  let ?im = "resample img (nat new_w) (nat new_h)"
  let ?ox = "(int sz - new_w) div 2" and ?oy = "(int sz - new_h) div 2"
  let ?out = "paste (new_canvas sz) ?im ?ox ?oy"
  have dims: "int (height ?im) = new_h" "int (width ?im) = new_w"
    using assms(3) [of "nat new_w" "nat new_h"] pos by simp_all
  have r: "resize_sprite fl resample img sz = Inr ?out"
    using assms(1,2) s by (simp add: resize_sprite_def Let_def)
  have len: "length ?out = sz" by (simp add: length_paste new_canvas_def)
  have row: "length (?out ! y) = sz" if "y < sz" for y
    using that by (simp add: length_nth_paste new_canvas_def)
  have h: "height ?out = sz" using len by (simp add: height_def)
  have w: "width ?out = sz"
  proof (cases sz)
    case 0
    then show ?thesis using len by (simp add: width_def)
  next
    case (Suc n)
    then have "?out \<noteq> []" using len by auto
    then show ?thesis using row [of 0] Suc by (simp add: width_nth)
  qed
  have rect: "rectangular ?out"
    unfolding rectangular_def list_all_length w using len row by simp
  have px: "?out ! y ! x =
       (if ?ox \<le> int x \<and> int x < ?ox + new_w \<and> ?oy \<le> int y \<and> int y < ?oy + new_h
        then px_at ?im (int x - ?ox, int y - ?oy) else transparent_px)"
    if "y < sz" "x < sz" for x y
    using that by (simp add: nth_paste new_canvas_def dims)
  have "\<forall>y < sz. \<forall>x < sz.
          if ?ox \<le> int x \<and> int x < ?ox + new_w \<and> ?oy \<le> int y \<and> int y < ?oy + new_h
          then ?out ! y ! x = px_at ?im (int x - ?ox, int y - ?oy)
          else alpha (?out ! y ! x) = 0"
    using px by (simp add: transparent_px_def)
  with s r h w rect pos show ?thesis by blast
qed

text \<open>
  C9, as stated, fails: a sprite of 4 by 3 pixels resized to the size 2 is scaled to 2 by
  1 pixels, and 2 / 1 is not 4 / 3. At this input every double operation of the source
  is exact (\<open>2 / 4 = 0.5\<close> is the smaller quotient, \<open>4 * 0.5 = 2.0\<close>, \<open>3 * 0.5 = 1.5\<close>), so
  the rounding is the identity.
\<close>

theorem resize_aspect_not_exact:
  "scaled_size (\<lambda>q. q) (width wide_sprite) (height wide_sprite) 2 = (2, 1) \<and>
   (of_int 2 :: rat) / of_int 1 \<noteq> of_nat (width wide_sprite) / of_nat (height wide_sprite)"
proof -
  have "width wide_sprite = 4" "height wide_sprite = 3" by code_simp+
  then show ?thesis by (simp add: scaled_size_def py_int_def)
qed

theorem resize_sprite_canvas_witness:
  "0 < width wide_sprite \<and> 0 < height wide_sprite \<and>
   (\<exists>out. resize_sprite (\<lambda>q. q) flat_resample wide_sprite 2 = Inr out \<and>
      height out = 2 \<and> width out = 2 \<and>
      out ! 0 ! 0 = white_px \<and> out ! 0 ! 1 = white_px \<and>
      alpha (out ! 1 ! 0) = 0 \<and> alpha (out ! 1 ! 1) = 0)"
proof -
  have h1: "0 < width wide_sprite" by code_simp
  have h2: "0 < height wide_sprite" by code_simp
  have h3: "height (flat_resample wide_sprite w h) = h \<and> width (flat_resample wide_sprite w h) = w"
    if "0 < w" "0 < h" for w h
    using that by (cases h) (simp_all add: flat_resample_def height_def width_def)
  have s: "scaled_size (\<lambda>q. q) (width wide_sprite) (height wide_sprite) 2 = (2, 1)"
    by code_simp
  from resize_sprite_canvas [where img = wide_sprite and resample = flat_resample
      and fl = "\<lambda>q. q" and sz = 2, OF h1 h2 h3]
  obtain out where o: "resize_sprite (\<lambda>q. q) flat_resample wide_sprite 2 = Inr out"
    "height out = 2" "width out = 2"
    and px: "\<forall>y < 2. \<forall>x < 2.
              if (int 2 - 2) div 2 \<le> int x \<and> int x < (int 2 - 2) div 2 + 2 \<and>
                 (int 2 - 1) div 2 \<le> int y \<and> int y < (int 2 - 1) div 2 + 1
              then out ! y ! x =
                     px_at (flat_resample wide_sprite (nat 2) (nat 1))
                       (int x - (int 2 - 2) div 2, int y - (int 2 - 1) div 2)
              else alpha (out ! y ! x) = 0"
    unfolding s by auto
  have "out ! 0 ! 0 = white_px" "out ! 0 ! 1 = white_px" "alpha (out ! 1 ! 0) = 0" "alpha (out ! 1 ! 1) = 0"
    using px [rule_format, of 0 0] px [rule_format, of 0 1] px [rule_format, of 1 0]
      px [rule_format, of 1 1]
    by (simp_all add: flat_resample_def px_at_def)
  with o h1 h2 show ?thesis by blast
qed

section \<open>Placement of the detected cells\<close>

lemma find_bands_loop_ok:
  assumes "0 \<le> i"
    and "sorted_wrt (\<lambda>a b. snd a < fst b) bands"
    and "\<forall>b \<in> set bands. 0 \<le> fst b \<and> fst b < snd b \<and> snd b < (if in_band then start else i)"
    and "in_band \<longrightarrow> 0 \<le> start \<and> start < i"
  shows "bands_ok (i + int (length flags)) (find_bands_loop flags i in_band start bands)"
  using assms
proof (induction flags arbitrary: i in_band start bands)
  case Nil
  then show ?case by (auto simp: bands_ok_def sorted_wrt_append)
next
  case (Cons v flags)
  consider (start) "v \<and> \<not> in_band" | (stop) "\<not> v \<and> in_band" | (same) "\<not> (v \<and> \<not> in_band) \<and> \<not> (\<not> v \<and> in_band)"
    by blast
  then show ?case
  proof cases
    case start
    have "bands_ok (i + 1 + int (length flags)) (find_bands_loop flags (i + 1) True i bands)"
      by (rule Cons.IH) (use Cons.prems start in auto)
    then show ?thesis using start by (simp add: add.assoc)
  next
    case stop
    have "bands_ok (i + 1 + int (length flags))
            (find_bands_loop flags (i + 1) False start (bands @ [(start, i)]))"
      by (rule Cons.IH) (use Cons.prems stop in \<open>auto simp: sorted_wrt_append\<close>)
    then show ?thesis using stop by (simp add: add.assoc)
  next
    case same
    have "bands_ok (i + 1 + int (length flags))
            (find_bands_loop flags (i + 1) in_band start bands)"
      by (rule Cons.IH) (use Cons.prems same in \<open>auto split: if_splits\<close>)
    then show ?thesis using same by (auto simp: add.assoc)
  qed
qed

lemma find_bands_ok: "bands_ok (int (length flags)) (find_bands flags)"
  using find_bands_loop_ok [of 0 "[]" False 0 flags] by (simp add: find_bands_def)

lemma bands_ok_filter: "bands_ok n bands \<Longrightarrow> bands_ok n (filter P bands)"
  by (auto simp: bands_ok_def sorted_wrt_filter)

lemma separator_bands_ok: "bands_ok (int (length flags)) (separator_bands flags)"
  unfolding separator_bands_def by (rule bands_ok_filter [OF find_bands_ok])

lemma bands_ok_fst_last:
  "bands_ok n (b # bands) \<Longrightarrow> fst b \<le> fst (last (b # bands))"
  by (cases "bands = []") (auto simp: bands_ok_def dest!: bspec [of _ _ "last bands"])

lemma between_bands_bounds:
  "bands_ok n bands \<Longrightarrow> iv \<in> set (between_bands bands) \<Longrightarrow>
   snd (hd bands) \<le> fst iv \<and> fst iv < snd iv \<and> snd iv \<le> fst (last bands)"
proof (induction bands rule: between_bands.induct)
  case (1 b1 b2 bands)
  have ok2: "bands_ok n (b2 # bands)" using "1.prems"(1) by (simp add: bands_ok_def)
  have l: "fst b2 \<le> fst (last (b2 # bands))" by (rule bands_ok_fst_last [OF ok2])
  have b12: "snd b1 < fst b2" "fst b2 < snd b2" using "1.prems"(1) by (auto simp: bands_ok_def)
  from "1.prems"(2) consider "iv = (snd b1, fst b2)" "fst b2 - snd b1 > 10"
    | "iv \<in> set (between_bands (b2 # bands))"
    by (auto split: if_splits)
  then show ?case
  proof cases
    case 1
    then show ?thesis using l by simp
  next
    case 2
    from "1.IH" [OF ok2 this] show ?thesis using b12 by simp
  qed
qed simp_all

lemma between_bands_sorted:
  "bands_ok n bands \<Longrightarrow> sorted_wrt (\<lambda>a b. snd a \<le> fst b) (between_bands bands)"
proof (induction bands rule: between_bands.induct)
  case (1 b1 b2 bands)
  have ok2: "bands_ok n (b2 # bands)" using "1.prems"(1) by (simp add: bands_ok_def)
  have b12: "fst b2 < snd b2" using "1.prems"(1) by (auto simp: bands_ok_def)
  have "fst b2 \<le> fst iv" if "iv \<in> set (between_bands (b2 # bands))" for iv
    using between_bands_bounds [OF ok2 that] b12 by simp
  then show ?case using "1.IH" [OF ok2] by (auto simp: sorted_wrt_append)
qed simp_all

lemma bands_to_gap_intervals_chain:
  assumes "bands_ok n bands" and "bands_to_gap_intervals bands n = Some ivs"
  shows "chain n ivs"
proof -
  from assms(2) have ne: "bands \<noteq> []" by (auto simp: bands_to_gap_intervals_def split: if_splits)
  then obtain b bs where bands: "bands = b # bs" by (cases bands) auto
  let ?lead = "if fst (hd bands) > 10 then [(0, fst (hd bands))] else []"
  let ?trail = "if snd (last bands) < n - 10 then [(snd (last bands), n)] else []"
  have ivs: "ivs = ?lead @ between_bands bands @ ?trail"
    using assms(2) ne by (auto simp: bands_to_gap_intervals_def Let_def split: if_splits)
  have hdb: "0 \<le> fst (hd bands)" "fst (hd bands) < snd (hd bands)"
    using assms(1) bands by (auto simp: bands_ok_def)
  have lastb: "fst (last bands) < snd (last bands)" "snd (last bands) \<le> n"
    using assms(1) ne last_in_set [OF ne] by (auto simp: bands_ok_def)
  have hl: "fst (hd bands) \<le> fst (last bands)"
    using bands_ok_fst_last [of n b bs] assms(1) bands by simp
  note bb = between_bands_bounds [OF assms(1)]
  have "sorted_wrt (\<lambda>a b. snd a \<le> fst b) ivs"
    unfolding ivs using between_bands_sorted [OF assms(1)] bb hdb lastb hl
    by (force simp: sorted_wrt_append)
  moreover have "\<forall>iv \<in> set ivs. 0 \<le> fst iv \<and> snd iv \<le> n"
    unfolding ivs using bb hdb lastb hl by (force split: if_splits)
  ultimately show ?thesis by (simp add: chain_def)
qed

lemma chain_whole: "0 \<le> n \<Longrightarrow> chain n [(0, n)]"
  by (simp add: chain_def)

lemma interval_cells_member:
  assumes "r \<in> set (interval_cells hs vs)"
  shows "\<exists>y0 y1 x0 x1. (y0, y1) \<in> set hs \<and> (x0, x1) \<in> set vs \<and>
           r = (x0, y0, x1 - x0, y1 - y0) \<and> x1 - x0 > 10 \<and> y1 - y0 > 10"
  using assms by (auto simp: interval_cells_def)

lemma interval_cells_bounds:
  assumes "chain H hs" and "chain W vs" and "r \<in> set (interval_cells hs vs)"
  shows "case r of (x, y, w, h) \<Rightarrow>
           0 \<le> x \<and> x + w \<le> W \<and> 0 \<le> y \<and> y + h \<le> H \<and> w > 10 \<and> h > 10"
proof -
  from interval_cells_member [OF assms(3)]
  obtain y0 y1 x0 x1 where m: "(y0, y1) \<in> set hs" "(x0, x1) \<in> set vs"
    "r = (x0, y0, x1 - x0, y1 - y0)" "x1 - x0 > 10" "y1 - y0 > 10"
    by blast
  have "0 \<le> y0 \<and> y1 \<le> H" using assms(1) m(1) by (auto simp: chain_def)
  moreover have "0 \<le> x0 \<and> x1 \<le> W" using assms(2) m(2) by (auto simp: chain_def)
  ultimately show ?thesis using m(3-5) by simp
qed

lemma row_cells_disjoint:
  assumes "sorted_wrt (\<lambda>a b. snd a \<le> fst b) vs"
  shows "sorted_wrt disjoint_rects
           (map (\<lambda>(x0, x1). (x0, y0, x1 - x0, y1 - y0))
                (filter (\<lambda>(x0, x1). x1 - x0 > 10 \<and> y1 - y0 > 10) vs))"
proof -
  have "sorted_wrt (\<lambda>a b. snd a \<le> fst b) (filter (\<lambda>(x0, x1). x1 - x0 > 10 \<and> y1 - y0 > 10) vs)"
    by (rule sorted_wrt_filter [OF assms])
  then have "sorted_wrt (\<lambda>a b. disjoint_rects (case a of (x0, x1) \<Rightarrow> (x0, y0, x1 - x0, y1 - y0))
                                             (case b of (x0, x1) \<Rightarrow> (x0, y0, x1 - x0, y1 - y0)))
      (filter (\<lambda>(x0, x1). x1 - x0 > 10 \<and> y1 - y0 > 10) vs)"
    by (rule sorted_wrt_mono_rel [rotated]) (auto simp: disjoint_rects_def inside_def)
  then show ?thesis by (simp add: sorted_wrt_map)
qed

lemma interval_cells_disjoint:
  assumes "sorted_wrt (\<lambda>a b. snd a \<le> fst b) hs" and "sorted_wrt (\<lambda>a b. snd a \<le> fst b) vs"
  shows "sorted_wrt disjoint_rects (interval_cells hs vs)"
  using assms(1)
proof (induction hs)
  case Nil
  then show ?case by (simp add: interval_cells_def)
next
  case (Cons hiv hs)
  obtain y0 y1 where hiv: "hiv = (y0, y1)" by (cases hiv)
  let ?row = "map (\<lambda>(x0, x1). (x0, y0, x1 - x0, y1 - y0))
                (filter (\<lambda>(x0, x1). x1 - x0 > 10 \<and> y1 - y0 > 10) vs)"
  have eq: "interval_cells (hiv # hs) vs = ?row @ interval_cells hs vs"
    by (simp add: interval_cells_def hiv)
  have rest: "sorted_wrt disjoint_rects (interval_cells hs vs)"
    using Cons by simp
  have cross: "disjoint_rects a b" if "a \<in> set ?row" "b \<in> set (interval_cells hs vs)" for a b
  proof -
    from that(1) obtain x0 x1 where a: "a = (x0, y0, x1 - x0, y1 - y0)" by auto
    from interval_cells_member [OF that(2)]
    obtain y0' y1' x0' x1' where b: "(y0', y1') \<in> set hs" "b = (x0', y0', x1' - x0', y1' - y0')"
      by blast
    have "y1 \<le> y0'" using Cons.prems b(1) hiv by auto
    then show ?thesis by (auto simp: disjoint_rects_def inside_def a b(2))
  qed
  show ?case unfolding eq sorted_wrt_append
    using row_cells_disjoint [OF assms(2)] rest cross by blast
qed

lemma consecutive_Cons: "consecutive (a # b # splits) = (a, b) # consecutive (b # splits)"
  by (simp add: consecutive_def)

lemma consecutive_fst:
  "iv \<in> set (consecutive splits) \<Longrightarrow> fst iv \<in> set splits \<and> snd iv \<in> set splits"
  by (cases iv; cases splits) (auto simp: consecutive_def dest: set_zip_leftD set_zip_rightD)

lemma consecutive_sorted:
  "sorted splits \<Longrightarrow> sorted_wrt (\<lambda>a b. snd a \<le> fst b) (consecutive splits)"
proof (induction splits rule: induct_list012)
  case (3 a b splits)
  have "b \<le> fst iv" if "iv \<in> set (consecutive (b # splits))" for iv
    using consecutive_fst [OF that] "3.prems" by auto
  then show ?case using 3 by (auto simp: consecutive_Cons)
qed (simp_all add: consecutive_def)

lemma consecutive_chain:
  assumes "sorted splits" and "splits \<noteq> []" and "hd splits = 0" and "last splits = n"
  shows "chain n (consecutive splits)"
proof -
  have "0 \<le> x \<and> x \<le> n" if x: "x \<in> set splits" for x
  proof -
    obtain i where i: "i < length splits" "splits ! i = x" using x by (auto simp: in_set_conv_nth)
    have "splits ! 0 \<le> splits ! i" using assms(1) i(1) by (simp add: sorted_nth_mono)
    moreover have "splits ! i \<le> splits ! (length splits - 1)"
      using assms(1) i(1) by (intro sorted_nth_mono) auto
    ultimately show ?thesis using assms(2-4) i(2) by (simp add: hd_conv_nth last_conv_nth)
  qed
  then show ?thesis using consecutive_sorted [OF assms(1)] consecutive_fst
    by (auto simp: chain_def)
qed

lemma selected_splits_balanced:
  assumes "0 \<le> tot"
  shows "splits_are_balanced (gaps_to_splits (select_best_gaps gaps tot) tot) tot"
proof (cases "select_best_gaps gaps tot")
  case None
  then show ?thesis using assms by (simp add: gaps_to_splits_def)
next
  case (Some c)
  then have "select_loop [2, 1] (sort_key (\<lambda>g. - (snd g - fst g)) gaps) tot = Some c"
    by (simp add: select_best_gaps_def Let_def split: if_splits)
  from select_loop_Some [OF this] show ?thesis unfolding Some by blast
qed

lemma selected_splits_chain:
  assumes "0 \<le> tot"
  shows "chain tot (consecutive (gaps_to_splits (select_best_gaps gaps tot) tot))"
proof (rule consecutive_chain)
  let ?splits = "gaps_to_splits (select_best_gaps gaps tot) tot"
  have "\<forall>i. Suc i < length ?splits \<longrightarrow> tot \<le> 4 * (?splits ! Suc i - ?splits ! i)"
    using selected_splits_balanced [OF assms, of gaps] by (simp only: splits_are_balanced_iff)
  then have "\<forall>i. Suc i < length ?splits \<longrightarrow> ?splits ! i \<le> ?splits ! Suc i"
    using assms by fastforce
  then show "sorted ?splits" by (simp only: sorted_iff_nth_Suc)
  show "?splits \<noteq> []" "hd ?splits = 0" "last ?splits = tot"
    by (auto simp: gaps_to_splits_def split: option.splits)
qed

lemma length_masks:
  "length (filled_row_mask arr cfg) = height arr" "length (filled_col_mask arr cfg) = width arr"
  by (simp_all add: filled_row_mask_def filled_col_mask_def columns_def height_def)

lemma gap_intervals_or_whole_chain:
  assumes "bands_ok n bands" and "0 \<le> n"
  shows "chain n (case bands_to_gap_intervals bands n of None \<Rightarrow> [(0, n)] | Some iv \<Rightarrow> iv)"
  using bands_to_gap_intervals_chain [OF assms(1)] chain_whole [OF assms(2)]
  by (cases "bands_to_gap_intervals bands n") simp_all

lemma detect_separator_lines_cells:
  assumes "detect_separator_lines arr cfg = Some cells"
  shows "grid_cells arr cells"
proof -
  let ?hb = "separator_bands (filled_row_mask arr cfg)"
  let ?vb = "separator_bands (filled_col_mask arr cfg)"
  let ?hs = "case bands_to_gap_intervals ?hb (int (height arr)) of None \<Rightarrow> [(0, int (height arr))] | Some iv \<Rightarrow> iv"
  let ?vs = "case bands_to_gap_intervals ?vb (int (width arr)) of None \<Rightarrow> [(0, int (width arr))] | Some iv \<Rightarrow> iv"
  have "cells = interval_cells ?hs ?vs"
    using assms by (simp add: detect_separator_lines_def Let_def split: if_splits)
  moreover have "chain (int (height arr)) ?hs"
    by (rule gap_intervals_or_whole_chain
          [OF separator_bands_ok [of "filled_row_mask arr cfg", unfolded length_masks]]) simp
  moreover have "chain (int (width arr)) ?vs"
    by (rule gap_intervals_or_whole_chain
          [OF separator_bands_ok [of "filled_col_mask arr cfg", unfolded length_masks]]) simp
  ultimately show ?thesis unfolding grid_cells_def by blast
qed

lemma detect_white_gaps_cells:
  assumes "detect_white_gaps arr cfg = Some cells"
  shows "grid_cells arr cells"
proof -
  let ?hg = "find_gap_bands (gap_row_mask arr cfg) (gap_min_width cfg) (int (height arr))"
  let ?vg = "find_gap_bands (gap_col_mask arr cfg) (gap_min_width cfg) (int (width arr))"
  let ?hs = "consecutive (gaps_to_splits (select_best_gaps ?hg (int (height arr))) (int (height arr)))"
  let ?vs = "consecutive (gaps_to_splits (select_best_gaps ?vg (int (width arr))) (int (width arr)))"
  have "cells = interval_cells ?hs ?vs"
    using assms by (simp add: detect_white_gaps_def build_cells_def Let_def split: if_splits)
  moreover have "chain (int (height arr)) ?hs" by (rule selected_splits_chain) simp
  moreover have "chain (int (width arr)) ?vs" by (rule selected_splits_chain) simp
  ultimately show ?thesis unfolding grid_cells_def by blast
qed

lemma grid_cells_bounds:
  "grid_cells arr cells \<Longrightarrow> r \<in> set cells \<Longrightarrow>
   (case r of (x, y, w, h) \<Rightarrow>
      0 \<le> x \<and> x + w \<le> int (width arr) \<and> 0 \<le> y \<and> y + h \<le> int (height arr) \<and> w > 10 \<and> h > 10)"
  unfolding grid_cells_def using interval_cells_bounds by blast

lemma grid_cells_disjoint:
  "grid_cells arr cells \<Longrightarrow> sorted_wrt disjoint_rects cells"
  unfolding grid_cells_def chain_def using interval_cells_disjoint by blast

lemma detect_cells_cases:
  obtains (grid) "grid_cells arr (detect_cells arr cfg)"
      "detect_separator_lines arr cfg \<noteq> None \<or> detect_white_gaps arr cfg \<noteq> None"
    | (fallback) "detect_separator_lines arr cfg = None" "detect_white_gaps arr cfg = None"
      "detect_cells arr cfg = [(0, 0, int (width arr), int (height arr))]"
proof (cases "detect_separator_lines arr cfg")
  case (Some cells)
  then show ?thesis using detect_separator_lines_cells [OF Some] grid
    by (simp add: detect_cells_def)
next
  case None
  show ?thesis
  proof (cases "detect_white_gaps arr cfg")
    case (Some cells)
    then show ?thesis using detect_white_gaps_cells [OF Some] grid None
      by (simp add: detect_cells_def)
  next
    case n: None
    then show ?thesis using None fallback by (simp add: detect_cells_def)
  qed
qed

text \<open>
  C4, amended. Every rectangle returned by \<open>detect_cells\<close> lies inside the image; when the
  separator-line strategy or the white-gap strategy succeeds, every returned rectangle is
  wider and higher than 10 pixels; when both fail, the result is the rectangle
  \<open>(0, 0, W, H)\<close> of the whole image, whatever its size.
\<close>

theorem detect_cells_rects:
  "(\<forall>r \<in> set (detect_cells arr cfg). case r of (x, y, w, h) \<Rightarrow>
      0 \<le> x \<and> x + w \<le> int (width arr) \<and> 0 \<le> y \<and> y + h \<le> int (height arr)) \<and>
   (detect_separator_lines arr cfg \<noteq> None \<or> detect_white_gaps arr cfg \<noteq> None \<longrightarrow>
      (\<forall>r \<in> set (detect_cells arr cfg). case r of (x, y, w, h) \<Rightarrow> w > 10 \<and> h > 10)) \<and>
   (detect_separator_lines arr cfg = None \<and> detect_white_gaps arr cfg = None \<longrightarrow>
      detect_cells arr cfg = [(0, 0, int (width arr), int (height arr))])"
proof (cases rule: detect_cells_cases [of arr cfg])
  case grid
  have "case r of (x, y, w, h) \<Rightarrow>
      0 \<le> x \<and> x + w \<le> int (width arr) \<and> 0 \<le> y \<and> y + h \<le> int (height arr) \<and> w > 10 \<and> h > 10"
    if "r \<in> set (detect_cells arr cfg)" for r
    by (rule grid_cells_bounds [OF grid(1) that])
  then show ?thesis using grid(2) by fastforce
next
  case fallback
  then show ?thesis by simp
qed

theorem detect_cells_rects_witness:
  "detect_separator_lines split_sheet default_config \<noteq> None \<and>
   detect_cells split_sheet default_config = [(0, 0, 11, 11), (12, 0, 11, 11)] \<and>
   (12::int) + 11 \<le> int (width split_sheet) \<and> (0::int) + 11 \<le> int (height split_sheet) \<and>
   (11::int) > 10"
proof -
  have c: "detect_cells split_sheet default_config = [(0, 0, 11, 11), (12, 0, 11, 11)]"
    by code_simp
  have s: "detect_separator_lines split_sheet default_config \<noteq> None" by code_simp
  have m: "(12, 0, 11, 11) \<in> set (detect_cells split_sheet default_config)" unfolding c by simp
  from detect_cells_rects [of split_sheet default_config, THEN conjunct1, rule_format, OF m]
  have "(12::int) + 11 \<le> int (width split_sheet) \<and> (0::int) + 11 \<le> int (height split_sheet)"
    by simp
  moreover from detect_cells_rects [of split_sheet default_config, THEN conjunct2, THEN conjunct1,
      rule_format, OF disjI1 [OF s] m]
  have "(11::int) > 10" by simp
  ultimately show ?thesis using c s by blast
qed

text \<open>
  C10. The rectangles returned by \<open>detect_cells\<close> are pairwise disjoint: no point lies
  inside two rectangles at different positions of the returned list.
\<close>

theorem detect_cells_disjoint:
  assumes "i < j" and "j < length (detect_cells arr cfg)"
    and "inside (detect_cells arr cfg ! i) p"
  shows "\<not> inside (detect_cells arr cfg ! j) p"
proof (cases rule: detect_cells_cases [of arr cfg])
  case grid
  have "disjoint_rects (detect_cells arr cfg ! i) (detect_cells arr cfg ! j)"
    by (rule sorted_wrt_nth_less [OF grid_cells_disjoint [OF grid(1)] assms(1,2)])
  then show ?thesis using assms(3) unfolding disjoint_rects_def by blast
next
  case fallback
  then show ?thesis using assms(1,2) by simp
qed

theorem detect_cells_disjoint_witness:
  "(0::nat) < 1 \<and> 1 < length (detect_cells gap_sheet default_config) \<and>
   detect_separator_lines gap_sheet default_config = None \<and>
   detect_cells gap_sheet default_config = [(0, 0, 20, 11), (20, 0, 20, 11)] \<and>
   inside (detect_cells gap_sheet default_config ! 0) (19, 3) \<and>
   \<not> inside (detect_cells gap_sheet default_config ! 1) (19, 3)"
proof -
  have c: "detect_cells gap_sheet default_config = [(0, 0, 20, 11), (20, 0, 20, 11)]"
    by code_simp
  have s: "detect_separator_lines gap_sheet default_config = None" by code_simp
  have h1: "(0::nat) < 1" by simp
  have h2: "1 < length (detect_cells gap_sheet default_config)" unfolding c by simp
  have h3: "inside (detect_cells gap_sheet default_config ! 0) (19, 3)"
    unfolding c by (simp add: inside_def)
  from detect_cells_disjoint [OF h1 h2 h3] show ?thesis using h1 h2 h3 c s by blast
qed

end
